theory Spec2Isabelle
  imports Complex_Main "HOL-Library.Multiset"
begin

section \<open>Machine integers, errors and vectors\<close>

text \<open>
  The program computes with \<^verbatim>\<open>int\<close> (32 bits) and \<^verbatim>\<open>long long\<close> (64 bits), both
  signed. A value is a HOL integer; every arithmetic operation of the source whose
  mathematical result leaves the range of its C++ type is undefined behaviour there and is
  the error \<open>Overflow\<close> here. An index outside a vector is \<open>OutOfRange\<close>, a division by
  zero \<open>DivisionByZero\<close>, a vector of negative size \<open>BadAlloc\<close>, a loop that cannot
  end \<open>Diverges\<close>. Allocation of a vector of non-negative size is taken to succeed.
\<close>

datatype error = Overflow | OutOfRange | DivisionByZero | BadAlloc | Diverges

definition INT_MIN :: int where "INT_MIN = - 2147483648"
definition INT_MAX :: int where "INT_MAX = 2147483647"
definition LLONG_MIN :: int where "LLONG_MIN = - 9223372036854775808"
definition LLONG_MAX :: int where "LLONG_MAX = 9223372036854775807"

definition in_int :: "int \<Rightarrow> bool" where
  "in_int x \<longleftrightarrow> INT_MIN \<le> x \<and> x \<le> INT_MAX"

definition in_ll :: "int \<Rightarrow> bool" where
  "in_ll x \<longleftrightarrow> LLONG_MIN \<le> x \<and> x \<le> LLONG_MAX"

text \<open>Conversion of an out-of-range value to \<^verbatim>\<open>int\<close> keeps the low 32 bits.\<close>

definition to_int :: "int \<Rightarrow> int" where
  "to_int x = (x + 2147483648) mod 4294967296 - 2147483648"

text \<open>C++ division truncates towards zero.\<close>

definition cdiv :: "int \<Rightarrow> int \<Rightarrow> int" where
  "cdiv a b = sgn a * sgn b * (\<bar>a\<bar> div \<bar>b\<bar>)"

definition in_bounds :: "int \<Rightarrow> 'a list \<Rightarrow> bool" where
  "in_bounds k xs \<longleftrightarrow> 0 \<le> k \<and> k < int (length xs)"

section \<open>The base sieve\<close>

text \<open>
  The inner loop of \<^verbatim>\<open>simpleSieve\<close>:
  \<^verbatim>\<open>for (int j = i * i; j <= limit; j += i) isPrime[j] = false;\<close>
  entered at \<open>j\<close>. The outer loop enters it with \<open>i \<ge> 2\<close> only; with the stride 0 it
  would write the same flag for ever.
\<close>

function sieveInner :: "int \<Rightarrow> int \<Rightarrow> int \<Rightarrow> bool list \<Rightarrow> error + bool list" where
  "sieveInner limit i j isPrime =
     (if j \<le> limit then
        (if \<not> in_bounds j isPrime then Inl OutOfRange
         else if i = 0 then Inl Diverges
         else if \<not> in_int (j + i) then Inl Overflow
         else sieveInner limit i (j + i) (isPrime[nat j := False]))
      else Inr isPrime)"
  by pat_completeness auto
termination
  by (relation "measure (\<lambda>(limit, i, j, isPrime).
        if 0 < i then nat (limit + 1 - j) else nat (j + 1))")
     (auto simp: in_bounds_def)

declare sieveInner.simps [simp del]

text \<open>
  The outer loop:
  \<^verbatim>\<open>for (int i = 2; i * i <= limit; i++) if (isPrime[i]) { inner loop }\<close>
\<close>

function sieveOuter :: "int \<Rightarrow> int \<Rightarrow> bool list \<Rightarrow> error + bool list" where
  "sieveOuter limit i isPrime =
     (if \<not> in_int (i * i) then Inl Overflow
      else if i * i \<le> limit then
        (if \<not> in_bounds i isPrime then Inl OutOfRange
         else
           (case (if isPrime ! nat i then sieveInner limit i (i * i) isPrime
                  else Inr isPrime) of
              Inl e \<Rightarrow> Inl e
            | Inr isPrime' \<Rightarrow>
                if \<not> in_int (i + 1) then Inl Overflow
                else sieveOuter limit (i + 1) isPrime'))
      else Inr isPrime)"
  by pat_completeness auto
termination
proof (relation "measure (\<lambda>(limit, i, isPrime). nat (limit + 1 - i))")
  show "wf (measure (\<lambda>(limit, i, isPrime). nat (limit + 1 - i)))"
    by simp
next
  fix limit i :: int and isPrime x2 :: "bool list"
  assume "i * i \<le> limit"
  moreover have "i \<le> i * i"
    by (cases "0 \<le> i") (auto simp: mult_le_cancel_left1 intro: order_trans [of _ 0])
  ultimately show "((limit, i + 1, x2), limit, i, isPrime)
      \<in> measure (\<lambda>(limit, i, isPrime). nat (limit + 1 - i))"
    by simp
qed

declare sieveOuter.simps [simp del]

text \<open>
  The collecting loop:
  \<^verbatim>\<open>for (int i = 2; i <= limit; i++) if (isPrime[i]) primes.push_back(i);\<close>
\<close>

function collectPrimes :: "int \<Rightarrow> int \<Rightarrow> bool list \<Rightarrow> int list \<Rightarrow> error + int list" where
  "collectPrimes limit i isPrime primes =
     (if i \<le> limit then
        (if \<not> in_bounds i isPrime then Inl OutOfRange
         else if \<not> in_int (i + 1) then Inl Overflow
         else collectPrimes limit (i + 1) isPrime
                (if isPrime ! nat i then primes @ [i] else primes))
      else Inr primes)"
  by pat_completeness auto
termination
  by (relation "measure (\<lambda>(limit, i, isPrime, primes). nat (limit + 1 - i))") auto

declare collectPrimes.simps [simp del]

text \<open>
  \<^verbatim>\<open>vector<int> simpleSieve(int limit)\<close>. The vector has \<open>limit + 1\<close> flags; the
  statement \<^verbatim>\<open>isPrime[0] = isPrime[1] = false\<close> writes index 1 first, then index 0.
\<close>

definition simpleSieve :: "int \<Rightarrow> error + int list" where
  "simpleSieve limit =
     (if \<not> in_int (limit + 1) then Inl Overflow
      else if limit + 1 < 0 then Inl BadAlloc
      else
        (let isPrime = replicate (nat (limit + 1)) True in
         if \<not> in_bounds 1 isPrime then Inl OutOfRange
         else
           (let isPrime = isPrime[1 := False] in
            if \<not> in_bounds 0 isPrime then Inl OutOfRange
            else
              (let isPrime = isPrime[0 := False] in
               case sieveOuter limit 2 isPrime of
                 Inl e \<Rightarrow> Inl e
               | Inr isPrime' \<Rightarrow> collectPrimes limit 2 isPrime' []))))"

section \<open>The segment worker\<close>

text \<open>
  The first multiple of \<open>prime\<close> that the worker marks:
  \<^verbatim>\<open>max((long long)prime * prime, ((start + prime - 1) / prime) * prime)\<close>
\<close>

definition firstMultiple :: "int \<Rightarrow> int \<Rightarrow> error + int" where
  "firstMultiple start prime =
     (if \<not> in_ll (prime * prime) then Inl Overflow
      else if \<not> in_ll (start + prime) \<or> \<not> in_ll (start + prime - 1) then Inl Overflow
      else if prime = 0 then Inl DivisionByZero
      else if \<not> in_ll (cdiv (start + prime - 1) prime) then Inl Overflow
      else if \<not> in_ll (cdiv (start + prime - 1) prime * prime) then Inl Overflow
      else Inr (max (prime * prime) (cdiv (start + prime - 1) prime * prime)))"

text \<open>
  The marking loop of one prime:
  \<^verbatim>\<open>for (long long j = firstMultiple; j <= end; j += prime) isPrime[j - start] = false;\<close>
  It is never reached with the stride 0, where the division of \<open>firstMultiple\<close> has
  failed before.
\<close>

function markMultiples :: "int \<Rightarrow> int \<Rightarrow> int \<Rightarrow> int \<Rightarrow> bool list \<Rightarrow> error + bool list" where
  "markMultiples start end prime j isPrime =
     (if j \<le> end then
        (if \<not> in_ll (j - start) then Inl Overflow
         else if \<not> in_bounds (j - start) isPrime then Inl OutOfRange
         else if prime = 0 then Inl Diverges
         else if \<not> in_ll (j + prime) then Inl Overflow
         else markMultiples start end prime (j + prime) (isPrime[nat (j - start) := False]))
      else Inr isPrime)"
  by pat_completeness auto
termination
  by (relation "measure (\<lambda>(start, end, prime, j, isPrime).
        if 0 < prime then nat (end + 1 - j) else nat (j - start + 1))")
     (auto simp: in_bounds_def)

declare markMultiples.simps [simp del]

text \<open>The loop over the base primes: \<^verbatim>\<open>for (int prime : smallPrimes) { ... }\<close>\<close>

fun markAll :: "int \<Rightarrow> int \<Rightarrow> int list \<Rightarrow> bool list \<Rightarrow> error + bool list" where
  "markAll start end [] isPrime = Inr isPrime"
| "markAll start end (prime # smallPrimes) isPrime =
     (case firstMultiple start prime of
        Inl e \<Rightarrow> Inl e
      | Inr j \<Rightarrow>
          (case markMultiples start end prime j isPrime of
             Inl e \<Rightarrow> Inl e
           | Inr isPrime' \<Rightarrow> markAll start end smallPrimes isPrime'))"

text \<open>
  The extraction loop:
  \<^verbatim>\<open>for (long long i = start; i <= end; i++)
    if (i > 1 && isPrime[i - start]) localPrimes.push_back(i);\<close>
  The flag is read only when \<open>i > 1\<close>.
\<close>

function collectLocal :: "int \<Rightarrow> int \<Rightarrow> int \<Rightarrow> bool list \<Rightarrow> int list \<Rightarrow> error + int list" where
  "collectLocal start end i isPrime localPrimes =
     (if i \<le> end then
        (if 1 < i \<and> \<not> in_ll (i - start) then Inl Overflow
         else if 1 < i \<and> \<not> in_bounds (i - start) isPrime then Inl OutOfRange
         else if \<not> in_ll (i + 1) then Inl Overflow
         else collectLocal start end (i + 1) isPrime
                (if 1 < i \<and> isPrime ! nat (i - start) then localPrimes @ [i]
                 else localPrimes))
      else Inr localPrimes)"
  by pat_completeness auto
termination
  by (relation "measure (\<lambda>(start, end, i, isPrime, localPrimes). nat (end + 1 - i))") auto

declare collectLocal.simps [simp del]

text \<open>
  \<^verbatim>\<open>sieveWorker(start, end, smallPrimes, result)\<close>: the value is \<open>localPrimes\<close>, which the
  worker appends to the shared \<open>result\<close> while it holds the lock.
\<close>

definition sieveWorker :: "int \<Rightarrow> int \<Rightarrow> int list \<Rightarrow> error + int list" where
  "sieveWorker start end smallPrimes =
     (if \<not> in_ll (end - start) \<or> \<not> in_ll (end - start + 1) then Inl Overflow
      else if end - start + 1 < 0 then Inl BadAlloc
      else
        (case markAll start end smallPrimes (replicate (nat (end - start + 1)) True) of
           Inl e \<Rightarrow> Inl e
         | Inr isPrime \<Rightarrow> collectLocal start end start isPrime []))"

section \<open>The coordinator\<close>

text \<open>
  The launching loop of \<^verbatim>\<open>main\<close>:
  \<^verbatim>\<open>for (int i = 0; i < numThreads; i++) {
    long long chunkStart = start + i * chunkSize;
    long long chunkEnd = min(end, chunkStart + chunkSize - 1);
    if (chunkStart > end) break;
    threads.emplace_back(sieveWorker, chunkStart, chunkEnd, ...); }\<close>
  The value is the vector \<open>threads\<close>, each thread given by the chunk it works on.
\<close>

function launch :: "int \<Rightarrow> int \<Rightarrow> int \<Rightarrow> int \<Rightarrow> int \<Rightarrow> error + (int \<times> int) list" where
  "launch start end numThreads chunkSize i =
     (if i < numThreads then
        (if \<not> in_ll (i * chunkSize) \<or> \<not> in_ll (start + i * chunkSize) then Inl Overflow
         else
           (let chunkStart = start + i * chunkSize in
            if \<not> in_ll (chunkStart + chunkSize) \<or> \<not> in_ll (chunkStart + chunkSize - 1)
            then Inl Overflow
            else
              (let chunkEnd = min end (chunkStart + chunkSize - 1) in
               if chunkStart > end then Inr []
               else if \<not> in_int (i + 1) then Inl Overflow
               else
                 (case launch start end numThreads chunkSize (i + 1) of
                    Inl e \<Rightarrow> Inl e
                  | Inr threads \<Rightarrow> Inr ((chunkStart, chunkEnd) # threads)))))
      else Inr [])"
  by pat_completeness auto
termination
  by (relation "measure (\<lambda>(start, end, numThreads, chunkSize, i). nat (numThreads - i))") auto

declare launch.simps [simp del]

text \<open>
  The threads and \<^verbatim>\<open>t.join()\<close>: every thread runs \<open>sieveWorker\<close> on its chunk, on state
  of its own. The value lists the \<open>localPrimes\<close> of the threads in the order of launch.
\<close>

fun joinAll :: "int list \<Rightarrow> (int \<times> int) list \<Rightarrow> error + int list list" where
  "joinAll smallPrimes [] = Inr []"
| "joinAll smallPrimes ((chunkStart, chunkEnd) # threads) =
     (case sieveWorker chunkStart chunkEnd smallPrimes of
        Inl e \<Rightarrow> Inl e
      | Inr localPrimes \<Rightarrow>
          (case joinAll smallPrimes threads of
             Inl e \<Rightarrow> Inl e
           | Inr blocks \<Rightarrow> Inr (localPrimes # blocks)))"

text \<open>
  The sizes and the launching loop:
  \<^verbatim>\<open>long long rangeSize = end - start + 1;
  long long chunkSize = (rangeSize + numThreads - 1) / numThreads;\<close>
\<close>

definition launchThreads :: "int \<Rightarrow> int \<Rightarrow> int \<Rightarrow> error + (int \<times> int) list" where
  "launchThreads start end numThreads =
     (if \<not> in_ll (end - start) \<or> \<not> in_ll (end - start + 1) then Inl Overflow
      else
        (let rangeSize = end - start + 1 in
         if \<not> in_ll (rangeSize + numThreads) \<or> \<not> in_ll (rangeSize + numThreads - 1)
         then Inl Overflow
         else if numThreads = 0 then Inl DivisionByZero
         else if \<not> in_ll (cdiv (rangeSize + numThreads - 1) numThreads) then Inl Overflow
         else
           (let chunkSize = cdiv (rangeSize + numThreads - 1) numThreads in
            launch start end numThreads chunkSize 0)))"

text \<open>
  The parallel phase of \<^verbatim>\<open>main\<close>, from \<^verbatim>\<open>rangeSize\<close> to the join. A worker appends
  its whole \<open>localPrimes\<close> under \<^verbatim>\<open>resultMutex\<close>, so the shared vector ends as the
  concatenation of the threads' blocks in the order in which they took the lock: the
  parameter \<open>sched\<close> puts the blocks into that order.
\<close>

definition partitionAndSieve ::
  "(int list list \<Rightarrow> int list list) \<Rightarrow> int \<Rightarrow> int \<Rightarrow> int \<Rightarrow> int list \<Rightarrow> error + int list" where
  "partitionAndSieve sched start end numThreads smallPrimes =
     (case launchThreads start end numThreads of
        Inl e \<Rightarrow> Inl e
      | Inr threads \<Rightarrow>
          (case joinAll smallPrimes threads of
             Inl e \<Rightarrow> Inl e
           | Inr blocks \<Rightarrow> Inr (concat (sched blocks))))"

section \<open>The aggregator\<close>

text \<open>What \<^verbatim>\<open>main\<close> hands to the writers: the sorted primes, their number, their sum
  and the last ten of them.\<close>

record summary =
  allPrimes :: "int list"
  primeCount :: nat
  primeSum :: int
  topTen :: "int list"

text \<open>\<^verbatim>\<open>long long sum = 0; for (long long p : finalPrimes) sum += p;\<close>\<close>

fun sumLoop :: "int list \<Rightarrow> int \<Rightarrow> error + int" where
  "sumLoop [] s = Inr s"
| "sumLoop (p # ps) s = (if \<not> in_ll (s + p) then Inl Overflow else sumLoop ps (s + p))"

text \<open>
  \<^verbatim>\<open>for (int i = max(0, count - 10); i < count; ++i)
    topTenPrimes.push_back(finalPrimes[i]);\<close>
\<close>

function topLoop :: "int list \<Rightarrow> int \<Rightarrow> int \<Rightarrow> int list \<Rightarrow> error + int list" where
  "topLoop finalPrimes cnt i topTenPrimes =
     (if i < cnt then
        (if \<not> in_bounds i finalPrimes then Inl OutOfRange
         else if \<not> in_int (i + 1) then Inl Overflow
         else topLoop finalPrimes cnt (i + 1) (topTenPrimes @ [finalPrimes ! nat i]))
      else Inr topTenPrimes)"
  by pat_completeness auto
termination
  by (relation "measure (\<lambda>(finalPrimes, cnt, i, topTenPrimes). nat (cnt - i))") auto

declare topLoop.simps [simp del]

text \<open>
  The sort and the statistics of \<^verbatim>\<open>main\<close>. \<^verbatim>\<open>int count = finalPrimes.size()\<close> keeps the
  low 32 bits of the size; the count that is written out is the size itself.
\<close>

definition aggregate :: "int list \<Rightarrow> error + summary" where
  "aggregate merged =
     (let finalPrimes = sort merged in
      case sumLoop finalPrimes 0 of
        Inl e \<Rightarrow> Inl e
      | Inr s \<Rightarrow>
          (let cnt = to_int (int (length finalPrimes)) in
           if \<not> in_int (cnt - 10) then Inl Overflow
           else
             (case topLoop finalPrimes cnt (max 0 (cnt - 10)) [] of
                Inl e \<Rightarrow> Inl e
              | Inr topTenPrimes \<Rightarrow>
                  Inr \<lparr>allPrimes = finalPrimes, primeCount = length finalPrimes,
                       primeSum = s, topTen = topTenPrimes\<rparr>)))"

section \<open>The pipeline\<close>

text \<open>
  \<^verbatim>\<open>main\<close>, with the range and the number of threads as parameters. The parameter
  \<open>sqrt_ll\<close> is \<^verbatim>\<open>(long long) sqrt(end)\<close>, the square root in double precision cut to
  an integer, which is not computed here. \<open>simpleSieve\<close> takes an \<^verbatim>\<open>int\<close>.
\<close>

definition main_run ::
  "(int \<Rightarrow> int) \<Rightarrow> (int list list \<Rightarrow> int list list) \<Rightarrow> int \<Rightarrow> int \<Rightarrow> int \<Rightarrow> error + summary" where
  "main_run sqrt_ll sched start end numThreads =
     (let limit = sqrt_ll end in
      case simpleSieve (to_int limit) of
        Inl e \<Rightarrow> Inl e
      | Inr smallPrimes \<Rightarrow>
          (case partitionAndSieve sched start end numThreads smallPrimes of
             Inl e \<Rightarrow> Inl e
           | Inr merged \<Rightarrow> aggregate merged))"

section \<open>Specification\<close>

text \<open>A prime is an integer above 1 that no integer from 2 up to itself divides.\<close>

definition is_prime :: "int \<Rightarrow> bool" where
  "is_prime n \<longleftrightarrow> 1 < n \<and> (\<forall>d\<in>{2..<n}. \<not> d dvd n)"

text \<open>
  The invariant of the outer loop of \<open>simpleSieve\<close> on entry with \<open>i\<close>: a flag is set
  exactly for the indices from 2 on that no \<open>d\<close> below \<open>i\<close> divides with \<open>d * d\<close> within
  the index.
\<close>

definition sieved :: "int \<Rightarrow> bool list \<Rightarrow> bool" where
  "sieved i a \<longleftrightarrow>
     (\<forall>k<length a. a ! k = (2 \<le> int k \<and> (\<forall>d. 2 \<le> d \<and> d < i \<and> d * d \<le> int k \<longrightarrow> \<not> d dvd int k)))"

text \<open>
  The first multiple of a base prime \<open>p\<close> to mark in a chunk, in the words of the
  specification: \<open>max(p\<^sup>2, ceil(chunkStart / p) \<times> p)\<close>.
\<close>

definition first_multiple_formula :: "int \<Rightarrow> int \<Rightarrow> int" where
  "first_multiple_formula chunkStart p =
     max (p * p) (\<lceil>real_of_int chunkStart / real_of_int p\<rceil> * p)"

text \<open>The size of a chunk, in the words of the specification: \<open>ceil(rangeSize / workerCount)\<close>.\<close>

definition chunk_size_formula :: "int \<Rightarrow> int \<Rightarrow> int \<Rightarrow> int" where
  "chunk_size_formula start end workerCount =
     \<lceil>real_of_int (end - start + 1) / real_of_int workerCount\<rceil>"

text \<open>
  Trial division by the candidates \<open>d, d + 4, d + 6, d + 10, \<dots>\<close> below \<open>hi\<close>: from a \<open>d\<close> that
  leaves the remainder 1 modulo 6, these are the numbers that neither 2 nor 3 divides.
\<close>

function no_divisor_from :: "int \<Rightarrow> int \<Rightarrow> int \<Rightarrow> bool" where
  "no_divisor_from n d hi =
     (if d < hi then
        (if n mod d = 0 \<or> n mod (d + 4) = 0 then False else no_divisor_from n (d + 6) hi)
      else True)"
  by pat_completeness auto
termination
  by (relation "measure (\<lambda>(n, d, hi). nat (hi - d))") auto

declare no_divisor_from.simps [simp del]

text \<open>What a run of the trial division establishes.\<close>

definition all_checked :: "int \<Rightarrow> int \<Rightarrow> int \<Rightarrow> bool" where
  "all_checked n lo hi \<longleftrightarrow>
     (\<forall>x. lo \<le> x \<and> x < hi \<and> 6 dvd (x - lo) \<longrightarrow> \<not> x dvd n \<and> \<not> (x + 4) dvd n)"

section \<open>Arithmetic\<close>

lemma nonneg_in_ll: "0 \<le> x \<Longrightarrow> x \<le> LLONG_MAX \<Longrightarrow> in_ll x"
  by (simp add: in_ll_def LLONG_MIN_def)

lemma nonneg_in_int: "0 \<le> x \<Longrightarrow> x \<le> INT_MAX \<Longrightarrow> in_int x"
  by (simp add: in_int_def INT_MIN_def)

lemma to_int_id: "INT_MIN \<le> x \<Longrightarrow> x \<le> INT_MAX \<Longrightarrow> to_int x = x"
  by (simp add: to_int_def INT_MIN_def INT_MAX_def)

lemma to_int_wrap:
  assumes "INT_MAX < x" "x < 4294967296"
  shows "to_int x = x - 4294967296"
proof -
  have "(x + 2147483648) mod 4294967296 = (x + 2147483648 - 4294967296) mod 4294967296"
    by (simp only: minus_mod_self2)
  also have "\<dots> = x + 2147483648 - 4294967296"
    using assms by (intro mod_pos_pos_trivial) (auto simp: INT_MAX_def)
  finally show ?thesis by (simp add: to_int_def)
qed

lemma cdiv_nonneg: "0 \<le> a \<Longrightarrow> 0 < b \<Longrightarrow> cdiv a b = a div b"
  by (cases "a = 0") (simp_all add: cdiv_def)

lemma self_le_square: "(i::int) \<le> i * i"
  by (cases "0 \<le> i") (auto simp: mult_le_cancel_left1 intro: order_trans [of _ 0])

lemma square_less_imp_less:
  assumes "(d::int) * d < i * i" "0 \<le> i"
  shows "d < i"
proof (rule ccontr)
  assume "\<not> d < i"
  then have "i \<le> d" by simp
  then have "i * i \<le> d * d"
    using assms(2) by (intro mult_mono) auto
  with assms(1) show False by simp
qed

lemma dvd_diff_stride: "(i::int) dvd (k - (j + i)) \<longleftrightarrow> i dvd (k - j)"
proof -
  have "k - (j + i) = (k - j) - i" by simp
  then show ?thesis by (simp only: dvd_diff_left_iff [OF dvd_refl])
qed

lemma stride_step:
  assumes "0 < (i::int)"
  shows "(j \<le> k \<and> i dvd (k - j)) \<longleftrightarrow> (k = j \<or> (j + i \<le> k \<and> i dvd (k - (j + i))))"
proof -
  have "i \<le> k - j" if "j \<le> k" "i dvd (k - j)" "k \<noteq> j"
    using that by (intro zdvd_imp_le) auto
  then show ?thesis
    using assms unfolding dvd_diff_stride by auto
qed

lemma round_up_bounds:
  assumes "0 < (p::int)"
  shows "a \<le> (a + p - 1) div p * p" and "((a + p - 1) div p - 1) * p < a"
proof -
  define m where "m = (a + p - 1) div p"
  define r where "r = (a + p - 1) mod p"
  have "a + p - 1 = m * p + r"
    by (simp add: m_def r_def)
  moreover have "0 \<le> r" "r < p"
    using assms by (simp_all add: r_def)
  ultimately show "a \<le> (a + p - 1) div p * p" and "((a + p - 1) div p - 1) * p < a"
    unfolding m_def [symmetric] by (simp_all add: algebra_simps)
qed

lemma ceil_div_eq:
  assumes "0 < (p::int)"
  shows "\<lceil>real_of_int a / real_of_int p\<rceil> = (a + p - 1) div p"
proof (rule ceiling_unique)
  let ?m = "(a + p - 1) div p"
  have "real_of_int ((?m - 1) * p) < real_of_int a"
    using round_up_bounds(2) [OF assms, of a] by (simp only: of_int_less_iff)
  then show "real_of_int ?m - 1 < real_of_int a / real_of_int p"
    using assms by (simp add: pos_less_divide_eq)
  have "real_of_int a \<le> real_of_int (?m * p)"
    using round_up_bounds(1) [OF assms, of a] by (simp only: of_int_le_iff)
  then show "real_of_int a / real_of_int p \<le> real_of_int ?m"
    using assms by (simp add: pos_divide_le_eq)
qed

lemma round_up_least:
  assumes "0 < (p::int)" "p dvd n"
  shows "(a + p - 1) div p * p \<le> n \<longleftrightarrow> a \<le> n"
proof
  assume "(a + p - 1) div p * p \<le> n"
  with round_up_bounds(1) [OF assms(1), of a] show "a \<le> n" by linarith
next
  assume an: "a \<le> n"
  from assms(2) obtain k' where "n = p * k'" by (rule dvdE)
  then have k: "n = k' * p" by (simp add: mult.commute)
  define k where "k = k'"
  note k = k [folded k_def]
  have "((a + p - 1) div p - 1) * p < k * p"
    using round_up_bounds(2) [OF assms(1), of a] an k by linarith
  then have "(a + p - 1) div p - 1 < k"
    using assms(1) by (simp add: mult_less_cancel_right)
  then have "(a + p - 1) div p \<le> k" by simp
  then have "(a + p - 1) div p * p \<le> k * p"
    using assms(1) by (intro mult_right_mono) auto
  with k show "(a + p - 1) div p * p \<le> n" by simp
qed

subsection \<open>Primes\<close>

lemma is_prime_ge_2: "is_prime p \<Longrightarrow> 2 \<le> p"
  by (simp add: is_prime_def)

lemma is_prime_iff_no_small_divisor:
  "is_prime n \<longleftrightarrow> 2 \<le> n \<and> (\<forall>d. 2 \<le> d \<and> d * d \<le> n \<longrightarrow> \<not> d dvd n)"
proof
  assume p: "is_prime n"
  have "d < n" if "2 \<le> d" "d * d \<le> n" for d
  proof -
    have "d * 1 < d * d" using that(1) by (intro mult_strict_left_mono) auto
    with that(2) show ?thesis by simp
  qed
  with p show "2 \<le> n \<and> (\<forall>d. 2 \<le> d \<and> d * d \<le> n \<longrightarrow> \<not> d dvd n)"
    unfolding is_prime_def by auto
next
  assume r: "2 \<le> n \<and> (\<forall>d. 2 \<le> d \<and> d * d \<le> n \<longrightarrow> \<not> d dvd n)"
  have "\<not> d dvd n" if d: "d \<in> {2..<n}" for d
  proof
    assume "d dvd n"
    then obtain k where k: "n = d * k" by (auto simp: dvd_def)
    have "0 < d * k" "0 < d"
      using k d r by auto
    then have kpos: "0 < k"
      by (rule zero_less_mult_pos)
    have k2: "2 \<le> k"
    proof (rule ccontr)
      assume "\<not> 2 \<le> k"
      with kpos have "k = 1" by simp
      with k d show False by simp
    qed
    show False
    proof (cases "d \<le> k")
      case True
      then have "d * d \<le> d * k" using d by (intro mult_left_mono) auto
      with r k d \<open>d dvd n\<close> show False by auto
    next
      case False
      then have "k * k \<le> d * k" using kpos by (intro mult_right_mono) auto
      moreover have "k dvd n" using k by simp
      ultimately show False using r k k2 by auto
    qed
  qed
  with r show "is_prime n" unfolding is_prime_def by auto
qed

lemma prime_divisor_exists:
  assumes "2 \<le> n"
  shows "\<exists>q. is_prime q \<and> q dvd n"
  using assms
proof (induction "nat n" arbitrary: n rule: less_induct)
  case less
  show ?case
  proof (cases "is_prime n")
    case True
    then show ?thesis by auto
  next
    case False
    with less.prems obtain d where d: "2 \<le> d" "d < n" "d dvd n"
      unfolding is_prime_def by auto
    then have "nat d < nat n" by simp
    from less.hyps [OF this d(1)] obtain q where "is_prime q" "q dvd d"
      by blast
    with d(3) show ?thesis
      using dvd_trans by blast
  qed
qed

lemma small_prime_factor:
  assumes "2 \<le> n" "\<not> is_prime n"
  shows "\<exists>q. is_prime q \<and> q * q \<le> n \<and> q dvd n"
proof -
  from assms obtain d where d: "2 \<le> d" "d * d \<le> n" "d dvd n"
    unfolding is_prime_iff_no_small_divisor by auto
  from prime_divisor_exists [OF d(1)] obtain q where q: "is_prime q" "q dvd d"
    by blast
  have "0 < d" using d(1) by simp
  with q(2) have "q \<le> d" by (rule zdvd_imp_le)
  moreover have "0 \<le> q" using is_prime_ge_2 [OF q(1)] by simp
  ultimately have "q * q \<le> d * d"
    by (intro mult_mono) auto
  with d(2) have "q * q \<le> n" by simp
  moreover have "q dvd n"
    using q(2) d(3) by (rule dvd_trans)
  ultimately show ?thesis
    using q(1) by blast
qed

subsection \<open>A prime above the largest \<^verbatim>\<open>int\<close>\<close>

text \<open>
  The base primes are held in a \<^verbatim>\<open>vector<int>\<close>. The first prime that does not fit is
  2147483659; its primality is checked by trial division up to its square root.
\<close>

lemma no_divisor_from_checked:
  assumes "no_divisor_from n d hi"
  shows "all_checked n d hi"
  using assms
proof (induction n d hi rule: no_divisor_from.induct)
  case (1 n d hi)
  show ?case
  proof (cases "d < hi")
    case False
    then show ?thesis by (auto simp: all_checked_def)
  next
    case True
    from "1.prems" True have here: "n mod d \<noteq> 0" "n mod (d + 4) \<noteq> 0"
      and rest: "no_divisor_from n (d + 6) hi"
      by (subst (asm) no_divisor_from.simps, simp split: if_splits)+
    from "1.IH" [OF True _ rest] here have ih: "all_checked n (d + 6) hi"
      by simp
    show ?thesis
      unfolding all_checked_def
    proof (intro allI impI)
      fix x assume x: "d \<le> x \<and> x < hi \<and> 6 dvd (x - d)"
      show "\<not> x dvd n \<and> \<not> (x + 4) dvd n"
      proof (cases "x = d")
        case True
        with here show ?thesis by (simp add: mod_eq_0_iff_dvd)
      next
        case False
        from x obtain k where k: "x - d = 6 * k" by (auto simp: dvd_def)
        with x False have "1 \<le> k" by simp
        with k have "d + 6 \<le> x" by simp
        moreover have "6 dvd (x - (d + 6))"
          using k by presburger
        ultimately show ?thesis
          using ih x unfolding all_checked_def by blast
      qed
    qed
  qed
qed

lemma all_checkedD:
  assumes "all_checked n lo hi" "lo \<le> x" "x < hi" "6 dvd (x - lo)"
  shows "\<not> x dvd n" and "\<not> (x + 4) dvd n"
  using assms unfolding all_checked_def by blast+

lemma all_checked_append:
  assumes "all_checked n lo mid" "all_checked n mid hi" "6 dvd (mid - lo)"
  shows "all_checked n lo hi"
  unfolding all_checked_def
proof (intro allI impI)
  fix x assume x: "lo \<le> x \<and> x < hi \<and> 6 dvd (x - lo)"
  show "\<not> x dvd n \<and> \<not> (x + 4) dvd n"
  proof (cases "x < mid")
    case True
    with assms(1) x show ?thesis unfolding all_checked_def by blast
  next
    case False
    have "6 dvd (x - lo)" using x by simp
    with assms(3) have "6 dvd (x - mid)"
      by presburger
    with assms(2) x False show ?thesis unfolding all_checked_def by auto
  qed
qed

lemma trial_block_1: "no_divisor_from 2147483659 7 6007" by code_simp
lemma trial_block_2: "no_divisor_from 2147483659 6007 12007" by code_simp
lemma trial_block_3: "no_divisor_from 2147483659 12007 18007" by code_simp
lemma trial_block_4: "no_divisor_from 2147483659 18007 24007" by code_simp
lemma trial_block_5: "no_divisor_from 2147483659 24007 30007" by code_simp
lemma trial_block_6: "no_divisor_from 2147483659 30007 36007" by code_simp
lemma trial_block_7: "no_divisor_from 2147483659 36007 42007" by code_simp
lemma trial_block_8: "no_divisor_from 2147483659 42007 46345" by code_simp

lemma trial_all: "all_checked 2147483659 7 46345"
proof -
  note b = no_divisor_from_checked
  have "all_checked 2147483659 7 12007"
    by (rule all_checked_append [OF b [OF trial_block_1] b [OF trial_block_2]]) simp
  then have "all_checked 2147483659 7 18007"
    by (rule all_checked_append [OF _ b [OF trial_block_3]]) simp
  then have "all_checked 2147483659 7 24007"
    by (rule all_checked_append [OF _ b [OF trial_block_4]]) simp
  then have "all_checked 2147483659 7 30007"
    by (rule all_checked_append [OF _ b [OF trial_block_5]]) simp
  then have "all_checked 2147483659 7 36007"
    by (rule all_checked_append [OF _ b [OF trial_block_6]]) simp
  then have "all_checked 2147483659 7 42007"
    by (rule all_checked_append [OF _ b [OF trial_block_7]]) simp
  then show ?thesis
    by (rule all_checked_append [OF _ b [OF trial_block_8]]) simp
qed

lemma big_prime: "is_prime 2147483659"
  unfolding is_prime_iff_no_small_divisor
proof (intro conjI allI impI)
  show "(2::int) \<le> 2147483659" by simp
next
  fix d :: int assume d: "2 \<le> d \<and> d * d \<le> 2147483659"
  from d have d2: "2 \<le> d" by simp
  have lt: "d < 46341"
  proof (rule ccontr)
    assume "\<not> d < 46341"
    then have "46341 * 46341 \<le> d * d"
      by (intro mult_mono) auto
    with d show False by simp
  qed
  have split: "2 dvd d \<or> 3 dvd d \<or> d mod 6 = 1 \<or> d mod 6 = 5"
    by presburger
  show "\<not> d dvd 2147483659"
  proof
    assume dv: "d dvd 2147483659"
    from split consider "2 dvd d" | "3 dvd d" | "d mod 6 = 1" | "d mod 6 = 5" by blast
    then show False
    proof cases
      case 1
      then have "(2::int) dvd 2147483659" using dv by (rule dvd_trans)
      then show False by simp
    next
      case 2
      then have "(3::int) dvd 2147483659" using dv by (rule dvd_trans)
      then show False by simp
    next
      case 3
      then have "6 dvd (d - 7)" by presburger
      moreover have "7 \<le> d" using 3 d2 by presburger
      moreover have "d < 46345" using lt by simp
      ultimately have "\<not> d dvd 2147483659"
        by (intro all_checkedD(1) [OF trial_all])
      with dv show False by contradiction
    next
      case 4
      show False
      proof (cases "d = 5")
        case True
        with dv show False by simp
      next
        case False
        have "6 dvd (d - 4 - 7)" using 4 by presburger
        moreover have "7 \<le> d - 4" using 4 d2 False by presburger
        moreover have "d - 4 < 46345" using lt by simp
        ultimately have "\<not> (d - 4 + 4) dvd 2147483659"
          by (intro all_checkedD(2) [OF trial_all])
        with dv show False by simp
      qed
    qed
  qed
qed

text \<open>
  A sequence of \<^verbatim>\<open>int\<close>s that holds every prime up to the square root of \<open>e\<close> bounds \<open>e\<close>:
  the prime 2147483659 is not in it.
\<close>

lemma base_primes_bound:
  assumes "\<forall>p\<in>set bp. p \<le> INT_MAX" "\<forall>p. is_prime p \<and> p * p \<le> e \<longrightarrow> p \<in> set bp"
  shows "e + INT_MAX \<le> LLONG_MAX"
proof (rule ccontr)
  assume "\<not> e + INT_MAX \<le> LLONG_MAX"
  then have "(2147483659::int) * 2147483659 \<le> e"
    by (simp add: INT_MAX_def LLONG_MAX_def)
  with assms(2) big_prime have "2147483659 \<in> set bp" by blast
  with assms(1) show False by (auto simp: INT_MAX_def)
qed

section \<open>The base sieve is correct\<close>

lemma sieveInner_spec:
  assumes "0 < i" "0 \<le> j" "length isPrime = nat (limit + 1)" "limit + i \<le> INT_MAX"
  shows "\<exists>a. sieveInner limit i j isPrime = Inr a \<and> length a = length isPrime \<and>
           (\<forall>k<length a. a ! k = (isPrime ! k \<and> \<not> (j \<le> int k \<and> i dvd (int k - j))))"
  using assms
proof (induction limit i j isPrime rule: sieveInner.induct)
  case (1 limit i j isPrime)
  show ?case
  proof (cases "j \<le> limit")
    case False
    then have "\<forall>k<length isPrime. \<not> j \<le> int k"
      using "1.prems" by auto
    with False show ?thesis
      by (subst sieveInner.simps) simp
  next
    case True
    have ib: "in_bounds j isPrime"
      using True "1.prems" by (simp add: in_bounds_def)
    have ii: "in_int (j + i)"
      using True "1.prems" by (simp add: in_int_def INT_MIN_def)
    have "\<exists>a. sieveInner limit i (j + i) (isPrime[nat j := False]) = Inr a \<and>
      length a = length isPrime \<and>
      (\<forall>k<length a. a ! k = ((isPrime[nat j := False]) ! k \<and> \<not> (j + i \<le> int k \<and> i dvd (int k - (j + i)))))"
      using "1.IH" True ib ii "1.prems" by simp
    then obtain a where a: "sieveInner limit i (j + i) (isPrime[nat j := False]) = Inr a"
      "length a = length isPrime"
      "\<forall>k<length a. a ! k = ((isPrime[nat j := False]) ! k \<and> \<not> (j + i \<le> int k \<and> i dvd (int k - (j + i))))"
      by blast
    have "a ! k = (isPrime ! k \<and> \<not> (j \<le> int k \<and> i dvd (int k - j)))" if "k < length a" for k
    proof -
      have "(isPrime[nat j := False]) ! k = (isPrime ! k \<and> int k \<noteq> j)"
        using that a(2) \<open>0 \<le> j\<close> by (cases "k = nat j") auto
      then show ?thesis
        using a(3) that stride_step [OF \<open>0 < i\<close>, of j "int k"] by blast
    qed
    with a(1,2) True ib ii \<open>0 < i\<close> show ?thesis
      by (subst sieveInner.simps) simp
  qed
qed

lemma sieved_final:
  assumes "sieved i a" "length a = nat (limit + 1)" "limit < i * i" "0 \<le> i"
  shows "\<forall>k<length a. a ! k = (2 \<le> int k \<and> (\<forall>d. 2 \<le> d \<and> d * d \<le> int k \<longrightarrow> \<not> d dvd int k))"
proof (intro allI impI)
  fix k assume k: "k < length a"
  have "d < i" if "d * d \<le> int k" for d
  proof -
    have "d * d < i * i" using that k assms(2,3) by linarith
    then show ?thesis using assms(4) by (rule square_less_imp_less)
  qed
  then show "a ! k = (2 \<le> int k \<and> (\<forall>d. 2 \<le> d \<and> d * d \<le> int k \<longrightarrow> \<not> d dvd int k))"
    using assms(1) k unfolding sieved_def by blast
qed

lemma sieved_step_prime:
  assumes "sieved i a" "length a1 = length a" "2 \<le> i"
    "\<forall>k<length a1. a1 ! k = (a ! k \<and> \<not> (i * i \<le> int k \<and> i dvd (int k - i * i)))"
  shows "sieved (i + 1) a1"
  unfolding sieved_def
proof (intro allI impI)
  fix k assume k: "k < length a1"
  have dv: "i dvd (int k - i * i) \<longleftrightarrow> i dvd int k"
    by (simp add: dvd_diff_left_iff)
  have "(\<forall>d. 2 \<le> d \<and> d < i + 1 \<and> d * d \<le> int k \<longrightarrow> \<not> d dvd int k) \<longleftrightarrow>
        (\<forall>d. 2 \<le> d \<and> d < i \<and> d * d \<le> int k \<longrightarrow> \<not> d dvd int k) \<and> \<not> (i * i \<le> int k \<and> i dvd int k)"
    (is "?L \<longleftrightarrow> ?R")
  proof
    assume ?L
    then show ?R using \<open>2 \<le> i\<close> by auto
  next
    assume r: ?R
    show ?L
    proof (intro allI impI)
      fix d assume "2 \<le> d \<and> d < i + 1 \<and> d * d \<le> int k"
      then show "\<not> d dvd int k"
        using r by (cases "d = i") auto
    qed
  qed
  then show "a1 ! k = (2 \<le> int k \<and> (\<forall>d. 2 \<le> d \<and> d < i + 1 \<and> d * d \<le> int k \<longrightarrow> \<not> d dvd int k))"
    using assms(1,2,4) k dv unfolding sieved_def by auto
qed

lemma sieved_step_composite:
  assumes "sieved i a" "2 \<le> i" "nat i < length a" "\<not> a ! nat i"
  shows "sieved (i + 1) a"
  unfolding sieved_def
proof (intro allI impI)
  fix k assume k: "k < length a"
  have "int (nat i) = i"
    using assms(2) by simp
  with assms(1,3,4) have "\<not> (2 \<le> i \<and> (\<forall>d. 2 \<le> d \<and> d < i \<and> d * d \<le> i \<longrightarrow> \<not> d dvd i))"
    unfolding sieved_def by metis
  with assms(2) obtain d where d: "2 \<le> d" "d < i" "d * d \<le> i" "d dvd i"
    by blast
  have "\<not> a ! k" if "i * i \<le> int k" "i dvd int k"
  proof -
    have "d dvd int k" using d(4) that(2) by (rule dvd_trans)
    moreover have "d * d \<le> int k"
      using d(3) self_le_square [of i] that(1) by linarith
    ultimately show ?thesis
      using assms(1) k d(1,2) unfolding sieved_def by blast
  qed
  then have "a ! k \<Longrightarrow> \<not> (i * i \<le> int k \<and> i dvd int k)"
    by blast
  moreover have "(\<forall>d. 2 \<le> d \<and> d < i + 1 \<and> d * d \<le> int k \<longrightarrow> \<not> d dvd int k) \<longleftrightarrow>
        (\<forall>d. 2 \<le> d \<and> d < i \<and> d * d \<le> int k \<longrightarrow> \<not> d dvd int k) \<and> \<not> (i * i \<le> int k \<and> i dvd int k)"
    (is "?L \<longleftrightarrow> ?R")
  proof
    assume ?L
    then show ?R using \<open>2 \<le> i\<close> by auto
  next
    assume r: ?R
    show ?L
    proof (intro allI impI)
      fix d assume "2 \<le> d \<and> d < i + 1 \<and> d * d \<le> int k"
      then show "\<not> d dvd int k"
        using r by (cases "d = i") auto
    qed
  qed
  ultimately show "a ! k = (2 \<le> int k \<and> (\<forall>d. 2 \<le> d \<and> d < i + 1 \<and> d * d \<le> int k \<longrightarrow> \<not> d dvd int k))"
    using assms(1) k unfolding sieved_def by blast
qed

lemma sieveOuter_spec:
  assumes "2 \<le> i" "(i - 1) * (i - 1) \<le> limit" "limit < 2147395600"
    "length a = nat (limit + 1)" "sieved i a"
  shows "\<exists>a'. sieveOuter limit i a = Inr a' \<and> length a' = length a \<and>
     (\<forall>k<length a'. a' ! k = (2 \<le> int k \<and> (\<forall>d. 2 \<le> d \<and> d * d \<le> int k \<longrightarrow> \<not> d dvd int k)))"
  using assms
proof (induction limit i a rule: sieveOuter.induct)
  case (1 limit i a)
  have i_le: "i \<le> 46340"
  proof (rule ccontr)
    assume "\<not> i \<le> 46340"
    then have "(46340::int) \<le> i - 1" by simp
    then have "(46340::int) * 46340 \<le> (i - 1) * (i - 1)"
      by (intro mult_mono) auto
    with "1.prems"(2,3) show False by simp
  qed
  have "i * i \<le> 46340 * 46340"
    using i_le "1.prems"(1) by (intro mult_mono) auto
  moreover have "- 2147483648 \<le> i * i"
    by (rule order_trans [of _ 0]) simp_all
  ultimately have sq: "in_int (i * i)"
    by (simp add: in_int_def INT_MIN_def INT_MAX_def)
  have succ: "in_int (i + 1)"
    using i_le "1.prems"(1) by (simp add: in_int_def INT_MIN_def INT_MAX_def)
  show ?case
  proof (cases "i * i \<le> limit")
    case False
    then have "sieveOuter limit i a = Inr a"
      using sq by (subst sieveOuter.simps) simp
    moreover have "\<forall>k<length a. a ! k = (2 \<le> int k \<and> (\<forall>d. 2 \<le> d \<and> d * d \<le> int k \<longrightarrow> \<not> d dvd int k))"
      using "1.prems" False by (intro sieved_final [of i a limit]) auto
    ultimately show ?thesis by simp
  next
    case True
    have "i \<le> limit"
      using True self_le_square [of i] by linarith
    then have ib: "in_bounds i a"
      using "1.prems"(1,4) by (simp add: in_bounds_def)
    then have ilen: "nat i < length a"
      using "1.prems"(1) by (simp add: in_bounds_def)
    have "\<exists>a1. (if a ! nat i then sieveInner limit i (i * i) a else Inr a) = Inr a1 \<and>
            length a1 = length a \<and> sieved (i + 1) a1"
    proof (cases "a ! nat i")
      case False
      then show ?thesis
        using sieved_step_composite [OF "1.prems"(5,1) ilen] by simp
    next
      case yes: True
      have "limit + i \<le> INT_MAX"
        using "1.prems"(3) i_le by (simp add: INT_MAX_def)
      from sieveInner_spec [OF _ _ "1.prems"(4) this, of "i * i"] "1.prems"(1)
      obtain a1 where a1: "sieveInner limit i (i * i) a = Inr a1" "length a1 = length a"
        "\<forall>k<length a1. a1 ! k = (a ! k \<and> \<not> (i * i \<le> int k \<and> i dvd (int k - i * i)))"
        by auto
      have "sieved (i + 1) a1"
        using "1.prems"(5) a1(2) "1.prems"(1) a1(3) by (rule sieved_step_prime)
      with yes a1 show ?thesis by simp
    qed
    then obtain a1 where a1:
      "(if a ! nat i then sieveInner limit i (i * i) a else Inr a) = Inr a1"
      "length a1 = length a" "sieved (i + 1) a1"
      by blast
    have "\<exists>a'. sieveOuter limit (i + 1) a1 = Inr a' \<and> length a' = length a1 \<and>
     (\<forall>k<length a'. a' ! k = (2 \<le> int k \<and> (\<forall>d. 2 \<le> d \<and> d * d \<le> int k \<longrightarrow> \<not> d dvd int k)))"
      using "1.IH" [of a1] sq True ib a1 succ "1.prems" by simp
    then show ?thesis
      using sq True ib a1(1,2) succ by (subst sieveOuter.simps) simp
  qed
qed

lemma collectPrimes_spec:
  assumes "0 \<le> i" "length a = nat (limit + 1)" "limit < INT_MAX"
  shows "collectPrimes limit i a acc = Inr (acc @ filter (\<lambda>n. a ! nat n) [i..limit])"
  using assms
proof (induction limit i a acc rule: collectPrimes.induct)
  case (1 limit i a acc)
  show ?case
  proof (cases "i \<le> limit")
    case False
    then show ?thesis
      by (subst collectPrimes.simps) simp
  next
    case True
    have ib: "in_bounds i a"
      using True "1.prems" by (simp add: in_bounds_def)
    have ii: "in_int (i + 1)"
      using True "1.prems" by (simp add: in_int_def INT_MIN_def INT_MAX_def)
    have up: "[i..limit] = i # [i + 1..limit]"
      using True by (simp add: upto_rec1)
    have "collectPrimes limit (i + 1) a (if a ! nat i then acc @ [i] else acc) =
        Inr ((if a ! nat i then acc @ [i] else acc) @ filter (\<lambda>n. a ! nat n) [i + 1..limit])"
      using "1.IH" True ib ii "1.prems" by simp
    then show ?thesis
      using True ib ii up by (subst collectPrimes.simps) simp
  qed
qed

lemma simpleSieve_correct:
  assumes "1 \<le> limit" "limit < 2147395600"
  shows "simpleSieve limit = Inr (filter is_prime [2..limit])"
proof -
  define a0 where "a0 = (replicate (nat (limit + 1)) True)[1 := False, 0 := False]"
  have len: "length a0 = nat (limit + 1)"
    by (simp add: a0_def)
  have a0: "a0 ! k = (2 \<le> k)" if "k < length a0" for k
    using that by (auto simp: a0_def nth_list_update)
  have "sieved 2 a0"
    unfolding sieved_def using a0 by auto
  from sieveOuter_spec [OF _ _ assms(2) len this] assms(1)
  obtain a where a: "sieveOuter limit 2 a0 = Inr a" "length a = length a0"
    "\<forall>k<length a. a ! k = (2 \<le> int k \<and> (\<forall>d. 2 \<le> d \<and> d * d \<le> int k \<longrightarrow> \<not> d dvd int k))"
    by auto
  have "collectPrimes limit 2 a [] = Inr ([] @ filter (\<lambda>n. a ! nat n) [2..limit])"
    using a(2) len assms(2) by (intro collectPrimes_spec) (auto simp: INT_MAX_def)
  moreover have "filter (\<lambda>n. a ! nat n) [2..limit] = filter is_prime [2..limit]"
  proof (rule filter_cong [OF refl])
    fix n assume "n \<in> set [2..limit]"
    then have nlen: "nat n < length a" and nn: "int (nat n) = n"
      using a(2) len by auto
    have "a ! nat n = (2 \<le> int (nat n) \<and>
        (\<forall>d. 2 \<le> d \<and> d * d \<le> int (nat n) \<longrightarrow> \<not> d dvd int (nat n)))"
      using a(3) nlen by blast
    then show "a ! nat n = is_prime n"
      unfolding nn is_prime_iff_no_small_divisor .
  qed
  moreover have "in_int (limit + 1)" "\<not> limit + 1 < 0" "in_bounds 1 (replicate (nat (limit + 1)) True)"
    "in_bounds 0 ((replicate (nat (limit + 1)) True)[1 := False])"
    using assms by (simp_all add: in_int_def INT_MIN_def INT_MAX_def in_bounds_def)
  ultimately show ?thesis
    using a(1) by (simp add: simpleSieve_def a0_def)
qed

lemma sieveOuter_overflow:
  assumes "2147395600 \<le> limit" "0 \<le> i" "i \<le> 46341"
  shows "\<exists>e. sieveOuter limit i a = Inl e"
  using assms
proof (induction limit i a rule: sieveOuter.induct)
  case (1 limit i a)
  show ?case
  proof (cases "i = 46341")
    case True
    then show ?thesis
      by (subst sieveOuter.simps) (simp add: in_int_def INT_MAX_def)
  next
    case False
    then have "i \<le> 46340" using "1.prems" by simp
    then have "i * i \<le> 46340 * 46340"
      using "1.prems"(2) by (intro mult_mono) auto
    then have le: "i * i \<le> limit"
      using "1.prems"(1) by simp
    show ?thesis
    proof (cases "in_int (i * i) \<and> in_bounds i a \<and> in_int (i + 1)")
      case False
      then show ?thesis
        using le by (subst sieveOuter.simps) (auto split: sum.splits)
    next
      case ok: True
      show ?thesis
      proof (cases "if a ! nat i then sieveInner limit i (i * i) a else Inr a")
        case (Inl e)
        then show ?thesis
          using le ok by (subst sieveOuter.simps) simp
      next
        case (Inr a1)
        have "\<exists>e. sieveOuter limit (i + 1) a1 = Inl e"
          using "1.IH" [of a1] ok le Inr "1.prems" \<open>i \<le> 46340\<close> by simp
        then show ?thesis
          using le ok Inr by (subst sieveOuter.simps) auto
      qed
    qed
  qed
qed

lemma simpleSieve_overflow:
  assumes "2147395600 \<le> limit"
  shows "\<exists>e. simpleSieve limit = Inl e"
proof -
  obtain e where "sieveOuter limit 2 ((replicate (nat (limit + 1)) True)[1 := False, 0 := False]) = Inl e"
    using sieveOuter_overflow [OF assms, of 2] by auto
  then show ?thesis
    by (simp add: simpleSieve_def Let_def)
qed

text \<open>
  C2, amended. For every limit \<open>L\<close> from 2 up to 2147395599 (below the square of 46340),
  \<open>simpleSieve L\<close> returns exactly the primes up to \<open>L\<close>, in strictly ascending order and
  without duplicates. From 2147395600 on it does not return a list: the 32-bit computation
  of \<open>limit + 1\<close>, of \<open>i * i\<close> or of \<open>j + i\<close> overflows.
\<close>

theorem simpleSieve_primes:
  assumes "2 \<le> L"
  shows "(L < 2147395600 \<longrightarrow>
           (\<exists>primes. simpleSieve L = Inr primes \<and> set primes = {n. is_prime n \<and> n \<le> L} \<and>
              sorted_wrt (<) primes \<and> distinct primes)) \<and>
         (2147395600 \<le> L \<longrightarrow> (\<exists>e. simpleSieve L = Inl e))"
proof (intro conjI impI)
  assume "L < 2147395600"
  with assms have "simpleSieve L = Inr (filter is_prime [2..L])"
    by (intro simpleSieve_correct) auto
  moreover have "set (filter is_prime [2..L]) = {n. is_prime n \<and> n \<le> L}"
    using is_prime_ge_2 by auto
  moreover have "sorted_wrt (<) (filter is_prime [2..L])"
    by (intro sorted_wrt_filter) simp
  ultimately show "\<exists>primes. simpleSieve L = Inr primes \<and> set primes = {n. is_prime n \<and> n \<le> L} \<and>
      sorted_wrt (<) primes \<and> distinct primes"
    by simp
next
  assume "2147395600 \<le> L"
  then show "\<exists>e. simpleSieve L = Inl e"
    by (rule simpleSieve_overflow)
qed

theorem simpleSieve_primes_witness:
  "(2::int) \<le> 30 \<and> (30::int) < 2147395600 \<and>
   (\<exists>primes. simpleSieve 30 = Inr primes \<and> set primes = {n. is_prime n \<and> n \<le> 30} \<and>
      sorted_wrt (<) primes \<and> distinct primes)"
  using simpleSieve_primes [of 30] by simp

text \<open>
  The claim C2 as it is written fails at the largest \<^verbatim>\<open>int\<close>: \<open>limit + 1\<close> is not an
  \<^verbatim>\<open>int\<close> any more.
\<close>

theorem simpleSieve_int_max: "simpleSieve 2147483647 = Inl Overflow"
  by (simp add: simpleSieve_def in_int_def INT_MAX_def)

text \<open>
  C8, amended. For every limit from 1 up to 2147395599, \<open>simpleSieve\<close> returns without an
  error, and for the limit 1 it returns the empty sequence. Nothing is said about the limit 0.
\<close>

theorem simpleSieve_no_error:
  assumes "1 \<le> limit" "limit < 2147395600"
  shows "(\<exists>primes. simpleSieve limit = Inr primes) \<and> (limit < 2 \<longrightarrow> simpleSieve limit = Inr [])"
proof -
  have "simpleSieve limit = Inr (filter is_prime [2..limit])"
    using assms by (rule simpleSieve_correct)
  moreover have "filter is_prime [2..limit] = []" if "limit < 2"
    using that by simp
  ultimately show ?thesis by simp
qed

theorem simpleSieve_no_error_witness:
  "(1::int) \<le> 1 \<and> (1::int) < 2147395600 \<and> (\<exists>primes. simpleSieve 1 = Inr primes) \<and>
   simpleSieve 1 = Inr []"
  using simpleSieve_no_error [of 1] by simp

text \<open>
  The claim C8 as it is written fails at both ends of its range. At the limit 0 the vector
  has one flag and \<^verbatim>\<open>isPrime[1] = false\<close> writes outside it; at the largest \<^verbatim>\<open>int\<close> the
  size \<open>limit + 1\<close> overflows.
\<close>

theorem simpleSieve_error_at_ends:
  "simpleSieve 0 = Inl OutOfRange \<and> simpleSieve 2147483647 = Inl Overflow"
  by (simp add: simpleSieve_def in_int_def in_bounds_def INT_MIN_def INT_MAX_def)

section \<open>The segment worker is correct\<close>

lemma firstMultiple_value:
  assumes "1 \<le> start" "2 \<le> p" "p \<le> INT_MAX" "start + p \<le> LLONG_MAX"
  shows "firstMultiple start p = Inr (max (p * p) ((start + p - 1) div p * p))"
proof -
  have pp: "p * p \<le> INT_MAX * INT_MAX"
    using assms(2,3) by (intro mult_mono) auto
  have 1: "in_ll (p * p)"
    using pp by (intro nonneg_in_ll) (simp_all add: LLONG_MAX_def INT_MAX_def)
  have 2: "in_ll (start + p)" "in_ll (start + p - 1)"
    using assms by (simp_all add: in_ll_def LLONG_MIN_def)
  have c: "cdiv (start + p - 1) p = (start + p - 1) div p"
    using assms by (intro cdiv_nonneg) auto
  have up: "(start + p - 1) div p * p \<le> start + p - 1"
    using round_up_bounds(2) [of p start] assms(2) by (simp add: algebra_simps)
  have lo: "0 \<le> (start + p - 1) div p"
    using assms by (intro pos_imp_zdiv_nonneg_iff [THEN iffD2]) auto
  have "(start + p - 1) div p \<le> (start + p - 1) div 1"
    using assms by (intro zdiv_mono2) auto
  with lo have 3: "in_ll ((start + p - 1) div p)"
    using assms by (intro nonneg_in_ll) simp_all
  have "0 \<le> (start + p - 1) div p * p"
    using lo assms(2) by simp
  with up have 4: "in_ll ((start + p - 1) div p * p)"
    using assms by (intro nonneg_in_ll) simp_all
  show ?thesis
    using 1 2 3 4 assms(2) by (simp add: firstMultiple_def c)
qed

lemma markMultiples_spec:
  assumes "0 < p" "start \<le> j" "length a = nat (end - start + 1)" "end + p \<le> LLONG_MAX"
    "LLONG_MIN \<le> start" "0 \<le> start"
  shows "\<exists>a'. markMultiples start end p j a = Inr a' \<and> length a' = length a \<and>
           (\<forall>k<length a'. a' ! k = (a ! k \<and> \<not> (j \<le> start + int k \<and> p dvd (start + int k - j))))"
  using assms
proof (induction start "end" p j a rule: markMultiples.induct)
  case (1 start "end" p j a)
  show ?case
  proof (cases "j \<le> end")
    case False
    then have "\<forall>k<length a. \<not> j \<le> start + int k"
      using "1.prems" by auto
    with False show ?thesis
      by (subst markMultiples.simps) simp
  next
    case True
    have d: "in_ll (j - start)"
      using True "1.prems" by (intro nonneg_in_ll) simp_all
    have ib: "in_bounds (j - start) a"
      using True "1.prems" by (simp add: in_bounds_def)
    have ii: "in_ll (j + p)"
      using True "1.prems" by (intro nonneg_in_ll) simp_all
    have "\<exists>a'. markMultiples start end p (j + p) (a[nat (j - start) := False]) = Inr a' \<and>
      length a' = length a \<and>
      (\<forall>k<length a'. a' ! k = ((a[nat (j - start) := False]) ! k \<and>
          \<not> (j + p \<le> start + int k \<and> p dvd (start + int k - (j + p)))))"
      using "1.IH" True d ib ii "1.prems" by simp
    then obtain a' where a': "markMultiples start end p (j + p) (a[nat (j - start) := False]) = Inr a'"
      "length a' = length a"
      "\<forall>k<length a'. a' ! k = ((a[nat (j - start) := False]) ! k \<and>
          \<not> (j + p \<le> start + int k \<and> p dvd (start + int k - (j + p))))"
      by blast
    have "a' ! k = (a ! k \<and> \<not> (j \<le> start + int k \<and> p dvd (start + int k - j)))"
      if "k < length a'" for k
    proof -
      have "(a[nat (j - start) := False]) ! k = (a ! k \<and> start + int k \<noteq> j)"
        using that a'(2) \<open>start \<le> j\<close> by (cases "k = nat (j - start)") auto
      then show ?thesis
        using a'(3) that stride_step [OF \<open>0 < p\<close>, of j "start + int k"] by blast
    qed
    with a'(1,2) True d ib ii \<open>0 < p\<close> show ?thesis
      by (subst markMultiples.simps) simp
  qed
qed

lemma first_multiple_marks:
  assumes "2 \<le> (p::int)" "start \<le> n"
  shows "(max (p * p) ((start + p - 1) div p * p) \<le> n \<and>
          p dvd (n - max (p * p) ((start + p - 1) div p * p))) \<longleftrightarrow> (p * p \<le> n \<and> p dvd n)"
proof -
  let ?F = "max (p * p) ((start + p - 1) div p * p)"
  have "p dvd ?F"
    by (simp add: max_def)
  then have dv: "p dvd (n - ?F) \<longleftrightarrow> p dvd n"
    by (rule dvd_diff_left_iff)
  have "?F \<le> n \<longleftrightarrow> p * p \<le> n" if "p dvd n"
    using round_up_least [of p n start] that assms by auto
  with dv show ?thesis by blast
qed

lemma first_multiple_ge:
  assumes "2 \<le> (p::int)"
  shows "start \<le> max (p * p) ((start + p - 1) div p * p)"
  using round_up_bounds(1) [of p start] assms by simp

lemma markAll_spec:
  assumes "1 \<le> start" "length a = nat (end - start + 1)" "end + INT_MAX \<le> LLONG_MAX"
    "\<forall>p\<in>set bp. 2 \<le> p \<and> p \<le> INT_MAX" "start \<le> end"
  shows "\<exists>a'. markAll start end bp a = Inr a' \<and> length a' = length a \<and>
           (\<forall>k<length a'. a' ! k = (a ! k \<and>
               \<not> (\<exists>p\<in>set bp. p * p \<le> start + int k \<and> p dvd (start + int k))))"
  using assms
proof (induction bp arbitrary: a)
  case Nil
  then show ?case by simp
next
  case (Cons p bp)
  let ?F = "max (p * p) ((start + p - 1) div p * p)"
  have p: "2 \<le> p" "p \<le> INT_MAX"
    using Cons.prems(4) by auto
  have "start + p \<le> LLONG_MAX"
    using Cons.prems(3,5) p by linarith
  then have fm: "firstMultiple start p = Inr ?F"
    using Cons.prems(1) p by (intro firstMultiple_value)
  have "end + p \<le> LLONG_MAX"
    using Cons.prems(3) p by linarith
  from markMultiples_spec [OF _ first_multiple_ge [OF p(1)] Cons.prems(2) this]
    p Cons.prems(1)
  obtain a1 where a1: "markMultiples start end p ?F a = Inr a1" "length a1 = length a"
    "\<forall>k<length a1. a1 ! k = (a ! k \<and> \<not> (?F \<le> start + int k \<and> p dvd (start + int k - ?F)))"
    by (auto simp: LLONG_MIN_def)
  have a1': "a1 ! k = (a ! k \<and> \<not> (p * p \<le> start + int k \<and> p dvd (start + int k)))"
    if "k < length a1" for k
  proof -
    have "start \<le> start + int k" by simp
    from first_multiple_marks [OF p(1) this] a1(3) that show ?thesis by blast
  qed
  have "\<exists>a'. markAll start end bp a1 = Inr a' \<and> length a' = length a1 \<and>
           (\<forall>k<length a'. a' ! k = (a1 ! k \<and>
               \<not> (\<exists>p\<in>set bp. p * p \<le> start + int k \<and> p dvd (start + int k))))"
    using Cons.prems a1(2) by (intro Cons.IH) auto
  then obtain a' where a': "markAll start end bp a1 = Inr a'" "length a' = length a1"
    "\<forall>k<length a'. a' ! k = (a1 ! k \<and>
               \<not> (\<exists>p\<in>set bp. p * p \<le> start + int k \<and> p dvd (start + int k)))"
    by blast
  have "a' ! k = (a ! k \<and>
      \<not> (\<exists>q\<in>set (p # bp). q * q \<le> start + int k \<and> q dvd (start + int k)))"
    if "k < length a'" for k
    using a'(3) a1' that a'(2) by auto
  with fm a1(1,2) a'(1,2) show ?case
    by simp
qed

lemma collectLocal_spec:
  assumes "start \<le> i" "length a = nat (end - start + 1)" "end < LLONG_MAX" "0 \<le> start"
  shows "collectLocal start end i a acc =
           Inr (acc @ filter (\<lambda>n. 1 < n \<and> a ! nat (n - start)) [i..end])"
  using assms
proof (induction start "end" i a acc rule: collectLocal.induct)
  case (1 start "end" i a acc)
  show ?case
  proof (cases "i \<le> end")
    case False
    then show ?thesis
      by (subst collectLocal.simps) simp
  next
    case True
    have d: "in_ll (i - start)"
      using True "1.prems" by (intro nonneg_in_ll) simp_all
    have ib: "in_bounds (i - start) a"
      using True "1.prems" by (simp add: in_bounds_def)
    have ii: "in_ll (i + 1)"
      using True "1.prems" by (intro nonneg_in_ll) simp_all
    have up: "[i..end] = i # [i + 1..end]"
      using True by (simp add: upto_rec1)
    have "collectLocal start end (i + 1) a
            (if 1 < i \<and> a ! nat (i - start) then acc @ [i] else acc) =
          Inr ((if 1 < i \<and> a ! nat (i - start) then acc @ [i] else acc) @
            filter (\<lambda>n. 1 < n \<and> a ! nat (n - start)) [i + 1..end])"
      using "1.IH" True d ib ii "1.prems" by simp
    then show ?thesis
      using True d ib ii up by (subst collectLocal.simps) simp
  qed
qed

lemma sieveWorker_spec:
  assumes "1 \<le> start" "start \<le> end" "end + INT_MAX \<le> LLONG_MAX"
    "\<forall>p\<in>set bp. 2 \<le> p \<and> p \<le> INT_MAX"
  shows "sieveWorker start end bp =
           Inr (filter (\<lambda>n. 1 < n \<and> \<not> (\<exists>p\<in>set bp. p * p \<le> n \<and> p dvd n)) [start..end])"
proof -
  let ?a0 = "replicate (nat (end - start + 1)) True"
  have len: "length ?a0 = nat (end - start + 1)" by simp
  from markAll_spec [OF assms(1) len assms(3,4)] assms(2)
  obtain a where a: "markAll start end bp ?a0 = Inr a" "length a = nat (end - start + 1)"
    "\<forall>k<length a. a ! k = (?a0 ! k \<and>
               \<not> (\<exists>p\<in>set bp. p * p \<le> start + int k \<and> p dvd (start + int k)))"
    by auto
  have "collectLocal start end start a [] =
      Inr ([] @ filter (\<lambda>n. 1 < n \<and> a ! nat (n - start)) [start..end])"
    using a(2) assms by (intro collectLocal_spec) (auto simp: INT_MAX_def)
  moreover have "filter (\<lambda>n. 1 < n \<and> a ! nat (n - start)) [start..end] =
      filter (\<lambda>n. 1 < n \<and> \<not> (\<exists>p\<in>set bp. p * p \<le> n \<and> p dvd n)) [start..end]"
  proof (rule filter_cong [OF refl])
    fix n assume "n \<in> set [start..end]"
    then have k: "nat (n - start) < length a" and n: "start + int (nat (n - start)) = n"
      using a(2) by auto
    have "a ! nat (n - start) = (?a0 ! nat (n - start) \<and>
        \<not> (\<exists>p\<in>set bp. p * p \<le> start + int (nat (n - start)) \<and>
              p dvd (start + int (nat (n - start)))))"
      using a(3) k by blast
    then have "a ! nat (n - start) = (\<not> (\<exists>p\<in>set bp. p * p \<le> n \<and> p dvd n))"
      unfolding n using k a(2) by simp
    then show "(1 < n \<and> a ! nat (n - start)) =
        (1 < n \<and> \<not> (\<exists>p\<in>set bp. p * p \<le> n \<and> p dvd n))"
      by simp
  qed
  moreover have "in_ll (end - start)" "in_ll (end - start + 1)" "\<not> end - start + 1 < 0"
    using assms by (simp_all add: in_ll_def LLONG_MIN_def LLONG_MAX_def INT_MAX_def)
  ultimately show ?thesis
    using a(1) by (simp add: sieveWorker_def)
qed

lemma unmarked_iff_prime:
  assumes "\<forall>p\<in>set bp. is_prime p" "\<forall>p. is_prime p \<and> p * p \<le> e \<longrightarrow> p \<in> set bp" "n \<le> e"
  shows "(1 < n \<and> \<not> (\<exists>p\<in>set bp. p * p \<le> n \<and> p dvd n)) \<longleftrightarrow> is_prime n"
proof
  assume l: "1 < n \<and> \<not> (\<exists>p\<in>set bp. p * p \<le> n \<and> p dvd n)"
  show "is_prime n"
  proof (rule ccontr)
    assume "\<not> is_prime n"
    with l small_prime_factor [of n] obtain q where q: "is_prime q" "q * q \<le> n" "q dvd n"
      by auto
    with assms(2,3) have "q \<in> set bp" by auto
    with q l show False by blast
  qed
next
  assume p: "is_prime n"
  have "\<not> (p * p \<le> n \<and> p dvd n)" if "p \<in> set bp" for p
    using p assms(1) that is_prime_ge_2 [of p] unfolding is_prime_iff_no_small_divisor [of n]
    by auto
  with p show "1 < n \<and> \<not> (\<exists>p\<in>set bp. p * p \<le> n \<and> p dvd n)"
    using is_prime_ge_2 [of n] by auto
qed

lemma sieveWorker_primes:
  assumes "1 \<le> start" "start \<le> end" "end \<le> e" "e + INT_MAX \<le> LLONG_MAX"
    "\<forall>p\<in>set bp. is_prime p \<and> p \<le> INT_MAX"
    "\<forall>p. is_prime p \<and> p * p \<le> e \<longrightarrow> p \<in> set bp"
  shows "sieveWorker start end bp = Inr (filter is_prime [start..end])"
proof -
  have "\<forall>p\<in>set bp. 2 \<le> p \<and> p \<le> INT_MAX"
    using assms(5) is_prime_ge_2 by auto
  moreover have "end + INT_MAX \<le> LLONG_MAX"
    using assms(3,4) by simp
  ultimately have "sieveWorker start end bp =
      Inr (filter (\<lambda>n. 1 < n \<and> \<not> (\<exists>p\<in>set bp. p * p \<le> n \<and> p dvd n)) [start..end])"
    using assms(1,2) by (intro sieveWorker_spec)
  moreover have "filter (\<lambda>n. 1 < n \<and> \<not> (\<exists>p\<in>set bp. p * p \<le> n \<and> p dvd n)) [start..end] =
      filter is_prime [start..end]"
  proof (rule filter_cong [OF refl])
    fix n assume "n \<in> set [start..end]"
    then have "n \<le> e" using assms(3) by simp
    then show "(1 < n \<and> \<not> (\<exists>p\<in>set bp. p * p \<le> n \<and> p dvd n)) = is_prime n"
      using assms(5,6) by (intro unmarked_iff_prime) auto
  qed
  ultimately show ?thesis by simp
qed

subsection \<open>Indices stay inside the local vector\<close>

lemma firstMultiple_Inr:
  assumes "firstMultiple start p = Inr j"
  shows "j = max (p * p) (cdiv (start + p - 1) p * p)" and "p \<noteq> 0"
  using assms by (simp_all add: firstMultiple_def split: if_splits)

lemma firstMultiple_not_out_of_range: "firstMultiple start p \<noteq> Inl OutOfRange"
  by (simp add: firstMultiple_def)

lemma firstMultiple_ge_start:
  assumes "firstMultiple start p = Inr j" "1 \<le> start" "2 \<le> p"
  shows "start \<le> j"
proof -
  have "cdiv (start + p - 1) p = (start + p - 1) div p"
    using assms(2,3) by (intro cdiv_nonneg) auto
  with firstMultiple_Inr(1) [OF assms(1)] first_multiple_ge [OF assms(3), of start]
  show ?thesis by simp
qed

lemma markMultiples_safe:
  assumes "0 < p" "start \<le> j" "length a = nat (end - start + 1)"
  shows "markMultiples start end p j a \<noteq> Inl OutOfRange \<and>
         (\<forall>a'. markMultiples start end p j a = Inr a' \<longrightarrow> length a' = length a)"
  using assms
proof (induction start "end" p j a rule: markMultiples.induct)
  case (1 start "end" p j a)
  show ?case
  proof (cases "j \<le> end \<and> in_ll (j - start) \<and> in_ll (j + p)")
    case False
    then show ?thesis
      using "1.prems" by (subst (1 2) markMultiples.simps) (auto simp: in_bounds_def)
  next
    case True
    have ib: "in_bounds (j - start) a"
      using True "1.prems" by (simp add: in_bounds_def)
    have "markMultiples start end p (j + p) (a[nat (j - start) := False]) \<noteq> Inl OutOfRange \<and>
         (\<forall>a'. markMultiples start end p (j + p) (a[nat (j - start) := False]) = Inr a' \<longrightarrow>
            length a' = length (a[nat (j - start) := False]))"
      using "1.IH" True ib "1.prems" by simp
    then show ?thesis
      using True ib "1.prems"(1) by (subst (1 2) markMultiples.simps) simp
  qed
qed

lemma markAll_safe:
  assumes "1 \<le> start" "\<forall>p\<in>set bp. 2 \<le> p" "length a = nat (end - start + 1)"
  shows "markAll start end bp a \<noteq> Inl OutOfRange \<and>
         (\<forall>a'. markAll start end bp a = Inr a' \<longrightarrow> length a' = length a)"
  using assms
proof (induction bp arbitrary: a)
  case Nil
  then show ?case by simp
next
  case (Cons p bp)
  have p: "2 \<le> p" using Cons.prems(2) by simp
  show ?case
  proof (cases "firstMultiple start p")
    case (Inl e)
    then show ?thesis
      using firstMultiple_not_out_of_range [of start p] by auto
  next
    case (Inr j)
    have "start \<le> j"
      using Inr Cons.prems(1) p by (rule firstMultiple_ge_start)
    with markMultiples_safe [of p start j a "end"] p Cons.prems(3)
    have m: "markMultiples start end p j a \<noteq> Inl OutOfRange"
      "\<forall>a'. markMultiples start end p j a = Inr a' \<longrightarrow> length a' = length a"
      by auto
    show ?thesis
    proof (cases "markMultiples start end p j a")
      case (Inl e)
      with m(1) Inr show ?thesis by auto
    next
      case a1: (Inr a1)
      with m(2) have "length a1 = nat (end - start + 1)"
        using Cons.prems(3) by simp
      with Cons.IH [of a1] Cons.prems(1,2,3) Inr a1 show ?thesis by simp
    qed
  qed
qed

lemma collectLocal_safe:
  assumes "start \<le> i" "length a = nat (end - start + 1)"
  shows "collectLocal start end i a acc \<noteq> Inl OutOfRange"
  using assms
proof (induction start "end" i a acc rule: collectLocal.induct)
  case (1 start "end" i a acc)
  show ?case
  proof (cases "i \<le> end \<and> \<not> (1 < i \<and> \<not> in_ll (i - start)) \<and> in_ll (i + 1)")
    case False
    then show ?thesis
      using "1.prems" by (subst collectLocal.simps) (auto simp: in_bounds_def)
  next
    case True
    have ib: "in_bounds (i - start) a"
      using True "1.prems" by (simp add: in_bounds_def)
    have "collectLocal start end (i + 1) a
            (if 1 < i \<and> a ! nat (i - start) then acc @ [i] else acc) \<noteq> Inl OutOfRange"
      using "1.IH" True ib "1.prems" by simp
    then show ?thesis
      using True ib by (subst collectLocal.simps) simp
  qed
qed

lemma sieveWorker_safe:
  assumes "1 \<le> start" "start \<le> end" "\<forall>p\<in>set bp. 2 \<le> p"
  shows "sieveWorker start end bp \<noteq> Inl OutOfRange"
proof -
  let ?a0 = "replicate (nat (end - start + 1)) True"
  have len: "length ?a0 = nat (end - start + 1)" by simp
  note m = markAll_safe [OF assms(1,3) len]
  show ?thesis
  proof (cases "markAll start end bp ?a0")
    case (Inl e)
    with m show ?thesis
      by (auto simp: sieveWorker_def)
  next
    case (Inr a)
    with m have "length a = nat (end - start + 1)" by simp
    then have "collectLocal start end start a [] \<noteq> Inl OutOfRange"
      by (intro collectLocal_safe) auto
    with Inr show ?thesis
      by (auto simp: sieveWorker_def)
  qed
qed

subsection \<open>What the extraction admits\<close>

lemma collectLocal_partial:
  assumes "collectLocal start end i a acc = Inr out"
  shows "out = acc @ filter (\<lambda>n. 1 < n \<and> a ! nat (n - start)) [i..end]"
  using assms
proof (induction start "end" i a acc rule: collectLocal.induct)
  case (1 start "end" i a acc)
  show ?case
  proof (cases "i \<le> end")
    case False
    with "1.prems" show ?thesis
      by (subst (asm) collectLocal.simps) simp
  next
    case True
    from "1.prems" True have ok: "\<not> (1 < i \<and> \<not> in_ll (i - start))"
      "\<not> (1 < i \<and> \<not> in_bounds (i - start) a)" "in_ll (i + 1)"
      by (subst (asm) collectLocal.simps, simp split: if_splits)+
    from "1.prems" True ok have "collectLocal start end (i + 1) a
        (if 1 < i \<and> a ! nat (i - start) then acc @ [i] else acc) = Inr out"
      by (subst (asm) collectLocal.simps) (simp split: if_splits)
    with "1.IH" True ok have "out = (if 1 < i \<and> a ! nat (i - start) then acc @ [i] else acc) @
        filter (\<lambda>n. 1 < n \<and> a ! nat (n - start)) [i + 1..end]"
      by simp
    moreover have "[i..end] = i # [i + 1..end]"
      using True by (simp add: upto_rec1)
    ultimately show ?thesis by simp
  qed
qed

lemma markMultiples_below:
  assumes "markMultiples start end p j a = Inr a'" "0 < p"
  shows "length a' = length a \<and> (\<forall>k<length a. start + int k < j \<longrightarrow> a' ! k = a ! k)"
  using assms
proof (induction start "end" p j a rule: markMultiples.induct)
  case (1 start "end" p j a)
  show ?case
  proof (cases "j \<le> end")
    case False
    with "1.prems" show ?thesis
      by (subst (asm) markMultiples.simps) simp
  next
    case True
    from "1.prems" True have ok: "in_ll (j - start)" "in_bounds (j - start) a" "in_ll (j + p)"
      by (subst (asm) markMultiples.simps, simp split: if_splits)+
    from "1.prems" True ok
    have "markMultiples start end p (j + p) (a[nat (j - start) := False]) = Inr a'"
      by (subst (asm) markMultiples.simps) (simp split: if_splits)
    with "1.IH" True ok "1.prems"(2)
    have ih: "length a' = length (a[nat (j - start) := False])"
      "\<forall>k<length (a[nat (j - start) := False]). start + int k < j + p \<longrightarrow>
          a' ! k = (a[nat (j - start) := False]) ! k"
      by auto
    have "a' ! k = a ! k" if "k < length a" "start + int k < j" for k
    proof -
      have "k \<noteq> nat (j - start)" using that(2) by auto
      then have "(a[nat (j - start) := False]) ! k = a ! k" by simp
      with ih(2) that "1.prems"(2) show ?thesis by auto
    qed
    with ih(1) show ?thesis by simp
  qed
qed

lemma markAll_below:
  assumes "markAll start end bp a = Inr a'" "\<forall>p\<in>set bp. 2 \<le> p"
  shows "length a' = length a \<and> (\<forall>k<length a. start + int k < 4 \<longrightarrow> a' ! k = a ! k)"
  using assms
proof (induction bp arbitrary: a)
  case Nil
  then show ?case by simp
next
  case (Cons p bp)
  have p: "2 \<le> p" using Cons.prems(2) by simp
  from Cons.prems(1) obtain j a1 where j: "firstMultiple start p = Inr j"
    and a1: "markMultiples start end p j a = Inr a1" and r: "markAll start end bp a1 = Inr a'"
    by (auto split: sum.splits)
  have "2 * 2 \<le> p * p"
    using p by (intro mult_mono) auto
  then have "4 \<le> j"
    using firstMultiple_Inr(1) [OF j] by simp
  from markMultiples_below [OF a1] p
  have m: "length a1 = length a" "\<forall>k<length a. start + int k < j \<longrightarrow> a1 ! k = a ! k"
    by auto
  from Cons.IH [OF r] Cons.prems(2)
  have ih: "length a' = length a1" "\<forall>k<length a1. start + int k < 4 \<longrightarrow> a' ! k = a1 ! k"
    by auto
  show ?case
    using m ih \<open>4 \<le> j\<close> by auto
qed

lemma stride_positions:
  assumes "0 < (p::int)"
  shows "(F \<le> n \<and> p dvd (n - F)) \<longleftrightarrow> (\<exists>t::nat. n = F + int t * p)"
proof
  assume l: "F \<le> n \<and> p dvd (n - F)"
  then obtain q where q: "n - F = p * q" by (auto simp: dvd_def)
  have "0 \<le> p * q" using l q by simp
  then have "0 \<le> q"
    using assms by (simp add: zero_le_mult_iff)
  then have "n = F + int (nat q) * p"
    using q by (simp add: mult.commute)
  then show "\<exists>t::nat. n = F + int t * p" ..
next
  assume "\<exists>t::nat. n = F + int t * p"
  then obtain t :: nat where "n = F + int t * p" ..
  then show "F \<le> n \<and> p dvd (n - F)"
    using assms by simp
qed

subsection \<open>The claims about the worker\<close>

lemma first_multiple_formula_eq:
  "0 < p \<Longrightarrow> first_multiple_formula chunkStart p = max (p * p) ((chunkStart + p - 1) div p * p)"
  by (simp add: first_multiple_formula_def ceil_div_eq)

text \<open>
  C10, amended. In a chunk \<open>[start, end]\<close> with \<open>1 \<le> start \<le> end\<close> and \<open>end\<close> at least an
  \<^verbatim>\<open>int\<close> below the largest \<^verbatim>\<open>long long\<close>, and for base primes from 2 on that are
  \<^verbatim>\<open>int\<close>s, the first marked multiple is \<open>max(p\<^sup>2, ceil(start / p) \<times> p)\<close> and at least
  \<open>start\<close>, the marking loop from there, the extraction loop and the whole worker run to
  their end without an error: no index leaves the local vector of \<open>end - start + 1\<close> flags.
\<close>

theorem sieveWorker_in_bounds:
  assumes "1 \<le> start" "start \<le> end" "end + INT_MAX \<le> LLONG_MAX"
    and "\<forall>p\<in>set smallPrimes. 2 \<le> p \<and> p \<le> INT_MAX"
  shows "(\<forall>p\<in>set smallPrimes.
            firstMultiple start p = Inr (first_multiple_formula start p) \<and>
            start \<le> first_multiple_formula start p) \<and>
         (\<forall>p\<in>set smallPrimes. \<forall>isPrime::bool list.
            length isPrime = nat (end - start + 1) \<longrightarrow>
            (\<exists>isPrime'. markMultiples start end p (first_multiple_formula start p) isPrime =
                 Inr isPrime' \<and> length isPrime' = length isPrime)) \<and>
         (\<forall>isPrime::bool list. length isPrime = nat (end - start + 1) \<longrightarrow>
            (\<exists>localPrimes. collectLocal start end start isPrime [] = Inr localPrimes)) \<and>
         (\<exists>localPrimes. sieveWorker start end smallPrimes = Inr localPrimes)"
proof (intro conjI ballI allI impI)
  fix p assume "p \<in> set smallPrimes"
  then have p: "2 \<le> p" "p \<le> INT_MAX" using assms(4) by auto
  have "start + p \<le> LLONG_MAX"
    using assms(2,3) p(2) by linarith
  then show "firstMultiple start p = Inr (first_multiple_formula start p)"
    using firstMultiple_value [OF assms(1) p] p(1) by (simp add: first_multiple_formula_eq)
  show "start \<le> first_multiple_formula start p"
    using first_multiple_ge [OF p(1), of start] p(1) by (simp add: first_multiple_formula_eq)
next
  fix p and isPrime :: "bool list"
  assume "p \<in> set smallPrimes" and len: "length isPrime = nat (end - start + 1)"
  then have p: "2 \<le> p" "p \<le> INT_MAX" using assms(4) by auto
  have j: "start \<le> first_multiple_formula start p"
    using first_multiple_ge [OF p(1), of start] p(1) by (simp add: first_multiple_formula_eq)
  have "end + p \<le> LLONG_MAX"
    using assms(3) p(2) by linarith
  from markMultiples_spec [OF _ j len this] p(1) assms(1)
  show "\<exists>isPrime'. markMultiples start end p (first_multiple_formula start p) isPrime =
      Inr isPrime' \<and> length isPrime' = length isPrime"
    by (auto simp: LLONG_MIN_def)
next
  fix isPrime :: "bool list" assume "length isPrime = nat (end - start + 1)"
  then have "collectLocal start end start isPrime [] =
      Inr ([] @ filter (\<lambda>n. 1 < n \<and> isPrime ! nat (n - start)) [start..end])"
    using assms(1,3) by (intro collectLocal_spec) (auto simp: INT_MAX_def)
  then show "\<exists>localPrimes. collectLocal start end start isPrime [] = Inr localPrimes"
    by blast
next
  show "\<exists>localPrimes. sieveWorker start end smallPrimes = Inr localPrimes"
    using sieveWorker_spec [OF assms] by blast
qed

theorem sieveWorker_in_bounds_witness:
  "(1::int) \<le> 1 \<and> (1::int) \<le> 20 \<and> 20 + INT_MAX \<le> LLONG_MAX \<and>
   (2::int) \<le> 2 \<and> 2 \<le> INT_MAX \<and> (2::int) \<le> 3 \<and> 3 \<le> INT_MAX \<and>
   firstMultiple 1 3 = Inr (first_multiple_formula 1 3) \<and>
   (\<exists>localPrimes. sieveWorker 1 20 [2, 3] = Inr localPrimes)"
  using sieveWorker_in_bounds [of 1 20 "[2, 3]"]
  by (simp add: INT_MAX_def LLONG_MAX_def)

text \<open>
  The claim C10 as it is written fails for the chunk that holds the largest \<^verbatim>\<open>long long\<close>
  alone, with the base prime 2: \<open>start + prime\<close> overflows before any flag is marked.
\<close>

theorem sieveWorker_overflow:
  "sieveWorker 9223372036854775807 9223372036854775807 [2] = Inl Overflow"
  by (simp add: sieveWorker_def firstMultiple_def in_ll_def LLONG_MIN_def LLONG_MAX_def)

text \<open>
  C7. With base primes from 2 on, the marking never clears the flag of 0 or of 1; the
  extraction admits a value exactly when it lies in the chunk, is greater than 1 and has
  its flag still set; so 0 and 1 are in no output of the worker. For a chunk that starts
  at 1 the worker returns whenever \<open>end\<close> is at least an \<^verbatim>\<open>int\<close> below the largest
  \<^verbatim>\<open>long long\<close>.
\<close>

theorem sieveWorker_excludes_zero_one:
  assumes "start \<le> 1" "\<forall>p\<in>set smallPrimes. 2 \<le> p"
  shows "(\<forall>isPrime. markAll start end smallPrimes (replicate (nat (end - start + 1)) True) =
              Inr isPrime \<longrightarrow>
            (\<forall>v\<in>{0, 1}. start \<le> v \<and> v \<le> end \<longrightarrow> isPrime ! nat (v - start))) \<and>
         (\<forall>isPrime localPrimes. collectLocal start end start isPrime [] = Inr localPrimes \<longrightarrow>
            (\<forall>v. v \<in> set localPrimes \<longleftrightarrow>
               start \<le> v \<and> v \<le> end \<and> 1 < v \<and> isPrime ! nat (v - start))) \<and>
         (\<forall>localPrimes. sieveWorker start end smallPrimes = Inr localPrimes \<longrightarrow>
            0 \<notin> set localPrimes \<and> 1 \<notin> set localPrimes) \<and>
         (start = 1 \<and> 1 \<le> end \<and> end + INT_MAX \<le> LLONG_MAX \<and>
            (\<forall>p\<in>set smallPrimes. p \<le> INT_MAX) \<longrightarrow>
            (\<exists>localPrimes. sieveWorker start end smallPrimes = Inr localPrimes))"
proof (intro conjI allI impI ballI)
  fix isPrime v
  assume m: "markAll start end smallPrimes (replicate (nat (end - start + 1)) True) = Inr isPrime"
    and v: "v \<in> {0, 1}" "start \<le> v \<and> v \<le> end"
  define k where "k = nat (v - start)"
  have k: "k < length (replicate (nat (end - start + 1)) True)" "start + int k = v"
    using v by (auto simp: k_def)
  have "start + int k < 4"
    using k(2) v(1) by auto
  with markAll_below [OF m assms(2)] k(1)
  have "isPrime ! k = replicate (nat (end - start + 1)) True ! k"
    by blast
  also have "\<dots> = True"
    using k(1) by simp
  finally show "isPrime ! nat (v - start)"
    by (simp add: k_def)
next
  fix isPrime localPrimes v
  assume "collectLocal start end start isPrime [] = Inr localPrimes"
  from collectLocal_partial [OF this]
  show "v \<in> set localPrimes \<longleftrightarrow> start \<le> v \<and> v \<le> end \<and> 1 < v \<and> isPrime ! nat (v - start)"
    by auto
next
  fix localPrimes assume w: "sieveWorker start end smallPrimes = Inr localPrimes"
  then obtain isPrime where "collectLocal start end start isPrime [] = Inr localPrimes"
    by (auto simp: sieveWorker_def split: if_splits sum.splits)
  from collectLocal_partial [OF this] show "0 \<notin> set localPrimes" "1 \<notin> set localPrimes"
    by auto
next
  assume "start = 1 \<and> 1 \<le> end \<and> end + INT_MAX \<le> LLONG_MAX \<and>
    (\<forall>p\<in>set smallPrimes. p \<le> INT_MAX)"
  then show "\<exists>localPrimes. sieveWorker start end smallPrimes = Inr localPrimes"
    using sieveWorker_spec [of start "end" smallPrimes] assms(2) by auto
qed

theorem sieveWorker_excludes_zero_one_witness:
  "(0::int) \<le> 1 \<and> (2::int) \<le> 2 \<and> (2::int) \<le> 3 \<and>
   sieveWorker 0 10 [2, 3] = Inr [2, 3, 5, 7] \<and> (0::int) \<notin> set [2, 3, 5, 7] \<and>
   (1::int) \<notin> set [2, 3, 5, 7]"
proof -
  have "sieveWorker 0 10 [2, 3] = Inr [2, 3, 5, 7]"
    by code_simp
  with sieveWorker_excludes_zero_one [of 0 "[2, 3]" 10] show ?thesis
    by simp
qed

subsection \<open>The first multiple and what the marking reaches\<close>

lemma least_prime_factor:
  assumes "2 \<le> n"
  shows "\<exists>q. is_prime q \<and> q dvd n \<and> (\<forall>d. 2 \<le> d \<and> d dvd n \<longrightarrow> q \<le> d)"
proof -
  define P where "P m \<longleftrightarrow> 2 \<le> int m \<and> int m dvd n" for m
  define m where "m = (LEAST m. P m)"
  have "P (nat n)" using assms by (simp add: P_def)
  then have Pm: "P m" unfolding m_def by (rule LeastI)
  have least: "m \<le> k" if "P k" for k
    unfolding m_def using that by (rule Least_le)
  have min: "int m \<le> d" if "2 \<le> d" "d dvd n" for d
  proof -
    have "P (nat d)" using that by (simp add: P_def)
    from least [OF this] that(1) show ?thesis by simp
  qed
  have "\<not> d dvd int m" if "d \<in> {2..<int m}" for d
  proof
    assume "d dvd int m"
    with Pm have "d dvd n" unfolding P_def using dvd_trans by blast
    with min [of d] that show False by simp
  qed
  with Pm have "is_prime (int m)"
    by (simp add: is_prime_def P_def)
  with Pm min show ?thesis
    unfolding P_def by blast
qed

lemma composite_least_factor:
  assumes "1 < n" "\<not> is_prime n" "is_prime p" "p dvd n"
  shows "\<exists>q. is_prime q \<and> q \<le> p \<and> q * q \<le> n \<and> q dvd n"
proof -
  from least_prime_factor [of n] assms(1) obtain q where
    q: "is_prime q" "q dvd n" and min: "\<And>d. 2 \<le> d \<Longrightarrow> d dvd n \<Longrightarrow> q \<le> d"
    by auto
  have q2: "2 \<le> q" using q(1) by (rule is_prime_ge_2)
  have qp: "q \<le> p"
    using min [of p] assms(3,4) is_prime_ge_2 by simp
  from q(2) obtain k where k: "n = q * k" by (rule dvdE)
  have "0 < q * k" using assms(1) k by simp
  moreover have "0 < q" using q2 by simp
  ultimately have kpos: "0 < k" by (rule zero_less_mult_pos)
  have "k \<noteq> 1" using k q(1) assms(2) by auto
  with kpos have "2 \<le> k" by simp
  moreover have "k dvd n" using k by simp
  ultimately have "q \<le> k" by (rule min)
  then have "q * q \<le> q * k"
    using q2 by (intro mult_left_mono) auto
  with k q qp show ?thesis by auto
qed

text \<open>
  C3, amended. Let the base primes be the primes up to a limit that is an \<^verbatim>\<open>int\<close>, and
  let the chunk \<open>[chunkStart, chunkEnd]\<close> have \<open>chunkStart \<ge> 1\<close> and end at least an
  \<^verbatim>\<open>int\<close> below the largest \<^verbatim>\<open>long long\<close>. Then for every base prime \<open>p\<close> the first
  position that the worker marks is \<open>max(p\<^sup>2, ceil(chunkStart / p) \<times> p)\<close>, and the loop of \<open>p\<close>
  clears exactly the flags of that position and of those that follow it in steps of \<open>p\<close> up
  to \<open>chunkEnd\<close>; after the loops of all base primes the flag of every prime of the chunk is
  still set, and the flag of every composite of the chunk with a prime factor among the base
  primes is cleared.
\<close>

theorem firstMultiple_marking:
  assumes "1 \<le> chunkStart" "chunkStart \<le> chunkEnd" "chunkEnd + INT_MAX \<le> LLONG_MAX"
    and "limit \<le> INT_MAX" "set basePrimes = {p. is_prime p \<and> p \<le> limit}"
  shows "(\<forall>p\<in>set basePrimes.
            firstMultiple chunkStart p = Inr (first_multiple_formula chunkStart p)) \<and>
         (\<forall>p\<in>set basePrimes. \<forall>isPrime::bool list.
            length isPrime = nat (chunkEnd - chunkStart + 1) \<longrightarrow>
            (\<exists>isPrime'.
               markMultiples chunkStart chunkEnd p (first_multiple_formula chunkStart p) isPrime =
                 Inr isPrime' \<and>
               length isPrime' = length isPrime \<and>
               (\<forall>n\<in>{chunkStart..chunkEnd}.
                  isPrime' ! nat (n - chunkStart) =
                    (isPrime ! nat (n - chunkStart) \<and>
                     \<not> (\<exists>t::nat. n = first_multiple_formula chunkStart p + int t * p))))) \<and>
         (\<exists>isPrime.
            markAll chunkStart chunkEnd basePrimes
              (replicate (nat (chunkEnd - chunkStart + 1)) True) = Inr isPrime \<and>
            (\<forall>n\<in>{chunkStart..chunkEnd}.
               (is_prime n \<longrightarrow> isPrime ! nat (n - chunkStart)) \<and>
               (1 < n \<and> \<not> is_prime n \<and> (\<exists>p\<in>set basePrimes. p dvd n) \<longrightarrow>
                  \<not> isPrime ! nat (n - chunkStart))))"
proof (intro conjI ballI allI impI)
  fix p assume "p \<in> set basePrimes"
  then have p: "2 \<le> p" "p \<le> INT_MAX"
    using assms(4,5) is_prime_ge_2 by auto
  have "chunkStart + p \<le> LLONG_MAX"
    using assms(2,3) p(2) by linarith
  then show "firstMultiple chunkStart p = Inr (first_multiple_formula chunkStart p)"
    using firstMultiple_value [OF assms(1) p] p(1) by (simp add: first_multiple_formula_eq)
next
  fix p and isPrime :: "bool list"
  assume "p \<in> set basePrimes" and len: "length isPrime = nat (chunkEnd - chunkStart + 1)"
  then have p: "2 \<le> p" "p \<le> INT_MAX"
    using assms(4,5) is_prime_ge_2 by auto
  define F where "F = first_multiple_formula chunkStart p"
  have j: "chunkStart \<le> F"
    using first_multiple_ge [OF p(1), of chunkStart] p(1)
    by (simp add: F_def first_multiple_formula_eq)
  have "chunkEnd + p \<le> LLONG_MAX"
    using assms(3) p(2) by linarith
  from markMultiples_spec [OF _ j len this] p(1) assms(1)
  obtain a' where a': "markMultiples chunkStart chunkEnd p F isPrime = Inr a'"
    "length a' = length isPrime"
    "\<forall>k<length a'. a' ! k =
       (isPrime ! k \<and> \<not> (F \<le> chunkStart + int k \<and> p dvd (chunkStart + int k - F)))"
    by (auto simp: LLONG_MIN_def)
  have "a' ! nat (n - chunkStart) =
      (isPrime ! nat (n - chunkStart) \<and> \<not> (\<exists>t::nat. n = F + int t * p))"
    if "n \<in> {chunkStart..chunkEnd}" for n
  proof -
    define k where "k = nat (n - chunkStart)"
    have k: "k < length a'" "chunkStart + int k = n"
      using that len a'(2) by (auto simp: k_def)
    have "0 < p" using p(1) by simp
    from a'(3) k(1) have "a' ! k =
        (isPrime ! k \<and> \<not> (F \<le> chunkStart + int k \<and> p dvd (chunkStart + int k - F)))"
      by blast
    then have "a' ! k = (isPrime ! k \<and> \<not> (F \<le> n \<and> p dvd (n - F)))"
      by (simp only: k(2))
    then have "a' ! k = (isPrime ! k \<and> \<not> (\<exists>t::nat. n = F + int t * p))"
      by (simp only: stride_positions [OF \<open>0 < p\<close>])
    then show ?thesis
      by (simp only: k_def)
  qed
  with a'(1,2) show "\<exists>isPrime'.
      markMultiples chunkStart chunkEnd p (first_multiple_formula chunkStart p) isPrime =
        Inr isPrime' \<and>
      length isPrime' = length isPrime \<and>
      (\<forall>n\<in>{chunkStart..chunkEnd}.
         isPrime' ! nat (n - chunkStart) =
           (isPrime ! nat (n - chunkStart) \<and>
            \<not> (\<exists>t::nat. n = first_multiple_formula chunkStart p + int t * p)))"
    unfolding F_def by blast
next
  let ?a0 = "replicate (nat (chunkEnd - chunkStart + 1)) True"
  have bp: "\<forall>p\<in>set basePrimes. 2 \<le> p \<and> p \<le> INT_MAX"
    using assms(4,5) is_prime_ge_2 by auto
  have len: "length ?a0 = nat (chunkEnd - chunkStart + 1)" by simp
  from markAll_spec [OF assms(1) len assms(3) bp assms(2)]
  obtain a where a: "markAll chunkStart chunkEnd basePrimes ?a0 = Inr a"
    "length a = length ?a0"
    "\<forall>k<length a. a ! k = (?a0 ! k \<and>
       \<not> (\<exists>p\<in>set basePrimes. p * p \<le> chunkStart + int k \<and> p dvd (chunkStart + int k)))"
    by blast
  have flag: "a ! nat (n - chunkStart) = (\<not> (\<exists>p\<in>set basePrimes. p * p \<le> n \<and> p dvd n))"
    if "n \<in> {chunkStart..chunkEnd}" for n
  proof -
    define k where "k = nat (n - chunkStart)"
    have k: "k < length a" "chunkStart + int k = n"
      using that a(2) by (auto simp: k_def)
    from a(3) k(1) have "a ! k = (?a0 ! k \<and>
        \<not> (\<exists>p\<in>set basePrimes. p * p \<le> chunkStart + int k \<and> p dvd (chunkStart + int k)))"
      by blast
    moreover have "?a0 ! k" using k(1) a(2) by simp
    ultimately have "a ! k =
        (\<not> (\<exists>p\<in>set basePrimes. p * p \<le> chunkStart + int k \<and> p dvd (chunkStart + int k)))"
      by simp
    then have "a ! k = (\<not> (\<exists>p\<in>set basePrimes. p * p \<le> n \<and> p dvd n))"
      by (simp only: k(2))
    then show ?thesis
      by (simp only: k_def)
  qed
  have 1: "a ! nat (n - chunkStart)" if "n \<in> {chunkStart..chunkEnd}" "is_prime n" for n
  proof -
    have "\<not> (p * p \<le> n \<and> p dvd n)" if "p \<in> set basePrimes" for p
      using \<open>is_prime n\<close> bp that unfolding is_prime_iff_no_small_divisor [of n] by auto
    with flag [OF that(1)] show ?thesis by blast
  qed
  have 2: "\<not> a ! nat (n - chunkStart)"
    if "n \<in> {chunkStart..chunkEnd}" "1 < n \<and> \<not> is_prime n \<and> (\<exists>p\<in>set basePrimes. p dvd n)" for n
  proof -
    from that(2) obtain p where p: "p \<in> set basePrimes" "p dvd n" by blast
    then have "is_prime p" "p \<le> limit" using assms(5) by auto
    with composite_least_factor [of n p] that(2) p(2)
    obtain q where q: "is_prime q" "q \<le> p" "q * q \<le> n" "q dvd n" by blast
    then have "q \<in> set basePrimes"
      using \<open>p \<le> limit\<close> assms(5) by auto
    with q flag [OF that(1)] show ?thesis by blast
  qed
  from a(1) 1 2 show "\<exists>isPrime.
      markAll chunkStart chunkEnd basePrimes ?a0 = Inr isPrime \<and>
      (\<forall>n\<in>{chunkStart..chunkEnd}.
         (is_prime n \<longrightarrow> isPrime ! nat (n - chunkStart)) \<and>
         (1 < n \<and> \<not> is_prime n \<and> (\<exists>p\<in>set basePrimes. p dvd n) \<longrightarrow>
            \<not> isPrime ! nat (n - chunkStart)))"
    by blast
qed

lemma is_prime_2: "is_prime 2" by code_simp

lemma is_prime_3: "is_prime 3" by code_simp

lemma is_prime_5: "is_prime 5" by code_simp

lemma not_is_prime_4: "\<not> is_prime 4" by code_simp

lemma primes_upto_3: "set [2, 3] = {p. is_prime p \<and> p \<le> 3}"
proof -
  have "p = 2 \<or> p = 3" if "is_prime p" "p \<le> 3" for p
    using is_prime_ge_2 [OF that(1)] that(2) by auto
  then show ?thesis
    using is_prime_2 is_prime_3 by auto
qed

theorem firstMultiple_marking_witness:
  "(1::int) \<le> 10 \<and> (10::int) \<le> 20 \<and> 20 + INT_MAX \<le> LLONG_MAX \<and> 3 \<le> INT_MAX \<and>
   set [2, 3] = {p. is_prime p \<and> p \<le> 3} \<and>
   firstMultiple 10 3 = Inr (first_multiple_formula 10 3) \<and>
   (\<exists>isPrime. markAll 10 20 [2, 3] (replicate (nat (20 - 10 + 1)) True) = Inr isPrime)"
proof -
  have b: "20 + INT_MAX \<le> LLONG_MAX" "3 \<le> INT_MAX"
    by (simp_all add: INT_MAX_def LLONG_MAX_def)
  have c: "(1::int) \<le> 10" "(10::int) \<le> 20"
    by simp_all
  note m = firstMultiple_marking [of 10 20 3 "[2, 3]", OF c b primes_upto_3]
  have "firstMultiple 10 3 = Inr (first_multiple_formula 10 3)"
    using m [THEN conjunct1] by simp
  moreover have "\<exists>isPrime. markAll 10 20 [2, 3] (replicate (nat (20 - 10 + 1)) True) = Inr isPrime"
    using m [THEN conjunct2, THEN conjunct2] by blast
  ultimately show ?thesis
    using b primes_upto_3 by simp
qed

text \<open>
  The claim C3 as it is written fails for the base prime 2 in a chunk that starts at the
  largest \<^verbatim>\<open>long long\<close>: \<open>start + prime\<close> overflows, and no first multiple is computed.
\<close>

theorem firstMultiple_overflow: "firstMultiple 9223372036854775807 2 = Inl Overflow"
  by (simp add: firstMultiple_def in_ll_def LLONG_MIN_def LLONG_MAX_def)

section \<open>The coordinator is correct\<close>

lemma launch_total:
  assumes "0 \<le> c" "0 \<le> i" "0 \<le> s" "s + W * c \<le> LLONG_MAX" "W \<le> INT_MAX"
  shows "\<exists>cs. launch s e W c i = Inr cs"
  using assms
proof (induction s e W c i rule: launch.induct)
  case (1 s e W c i)
  show ?case
  proof (cases "i < W")
    case False
    then show ?thesis
      by (subst launch.simps) simp
  next
    case True
    have "(i + 1) * c \<le> W * c"
      using True "1.prems"(1) by (intro mult_right_mono) auto
    then have up: "s + i * c + c \<le> LLONG_MAX"
      using "1.prems"(4) by (simp add: algebra_simps)
    have ic: "0 \<le> i * c"
      using "1.prems"(1,2) by simp
    have a: "in_ll (i * c)" "in_ll (s + i * c)" "in_ll (s + i * c + c)"
      using up ic "1.prems"(1,3) by (auto intro!: nonneg_in_ll)
    have b: "in_ll (s + i * c + c - 1)"
      using up ic "1.prems"(1,3) by (simp add: in_ll_def LLONG_MIN_def)
    have ii: "in_int (i + 1)"
      using True "1.prems"(2,5) by (intro nonneg_in_int) auto
    show ?thesis
    proof (cases "s + i * c > e")
      case True
      then show ?thesis
        using \<open>i < W\<close> a b by (subst launch.simps) (simp add: Let_def)
    next
      case False
      have "\<exists>cs. launch s e W c (i + 1) = Inr cs"
        using "1.IH" [OF True _ refl _ refl False] a b ii "1.prems" by simp
      then show ?thesis
        using \<open>i < W\<close> a b ii False by (subst launch.simps) (auto simp: Let_def)
    qed
  qed
qed

lemma launch_cover:
  assumes "launch s e W c i = Inr cs" "1 \<le> c" "0 \<le> i" "e < s + W * c"
  shows "concat (map (\<lambda>(a, b). [a..b]) cs) = [s + i * c..e] \<and>
         (\<forall>k<length cs. cs ! k = (s + (i + int k) * c, min e (s + (i + int k) * c + c - 1)) \<and>
            s + (i + int k) * c \<le> e) \<and>
         (cs \<noteq> [] \<longrightarrow> snd (last cs) = e)"
  using assms
proof (induction s e W c i arbitrary: cs rule: launch.induct)
  case (1 s e W c i)
  show ?case
  proof (cases "i < W")
    case False
    then have "cs = []"
      using "1.prems"(1) by (subst (asm) launch.simps) simp
    moreover have "W * c \<le> i * c"
      using False "1.prems"(2) by (intro mult_right_mono) auto
    then have "e < s + i * c"
      using "1.prems"(4) by simp
    ultimately show ?thesis by simp
  next
    case True
    let ?x = "s + i * c"
    from "1.prems"(1) True have ok: "in_ll (i * c)" "in_ll ?x" "in_ll (?x + c)" "in_ll (?x + c - 1)"
      by (subst (asm) launch.simps, simp add: Let_def split: if_splits)+
    show ?thesis
    proof (cases "?x > e")
      case True
      then have "cs = []"
        using "1.prems"(1) \<open>i < W\<close> ok by (subst (asm) launch.simps) (simp add: Let_def)
      with True show ?thesis by simp
    next
      case False
      from "1.prems"(1) True ok False have ii: "in_int (i + 1)"
        by (subst (asm) launch.simps) (simp add: Let_def split: if_splits)
      from "1.prems"(1) True ok False ii obtain ts where
        ts: "launch s e W c (i + 1) = Inr ts" "cs = (?x, min e (?x + c - 1)) # ts"
        by (subst (asm) launch.simps) (auto simp: Let_def split: sum.splits)
      have ih: "concat (map (\<lambda>(a, b). [a..b]) ts) = [s + (i + 1) * c..e] \<and>
         (\<forall>k<length ts. ts ! k = (s + (i + 1 + int k) * c, min e (s + (i + 1 + int k) * c + c - 1)) \<and>
            s + (i + 1 + int k) * c \<le> e) \<and>
         (ts \<noteq> [] \<longrightarrow> snd (last ts) = e)"
        using "1.IH" [OF True _ refl _ refl False _ ts(1)] ok ii "1.prems"(2,3,4) by simp
      have nx: "s + (i + 1) * c = ?x + c"
        by (simp add: algebra_simps)
      have cat: "[?x..min e (?x + c - 1)] @ [?x + c..e] = [?x..e]"
      proof (cases "?x + c - 1 < e")
        case True
        then have "[?x..e] = [?x..(?x + c) - 1] @ [?x + c..e]"
          using "1.prems"(2) by (intro upto_split1) auto
        with True show ?thesis by (simp add: min_def)
      next
        case False
        then show ?thesis by (simp add: min_def)
      qed
      have 1: "concat (map (\<lambda>(a, b). [a..b]) cs) = [?x..e]"
        using ih cat by (simp add: ts(2) nx)
      have 2: "cs ! k = (s + (i + int k) * c, min e (s + (i + int k) * c + c - 1)) \<and>
            s + (i + int k) * c \<le> e" if "k < length cs" for k
      proof (cases k)
        case 0
        then show ?thesis using False by (simp add: ts(2))
      next
        case (Suc k')
        then have "k' < length ts" using that by (simp add: ts(2))
        with ih have "ts ! k' = (s + (i + 1 + int k') * c, min e (s + (i + 1 + int k') * c + c - 1)) \<and>
            s + (i + 1 + int k') * c \<le> e"
          by blast
        moreover have "i + 1 + int k' = i + int k"
          using Suc by simp
        ultimately show ?thesis
          using Suc by (simp add: ts(2))
      qed
      have 3: "snd (last cs) = e"
      proof (cases "ts = []")
        case True
        with ih have "[?x + c..e] = []" by (simp add: nx)
        then have "e < ?x + c" by simp
        with True show ?thesis by (simp add: ts(2) min_def)
      next
        case False
        with ih show ?thesis by (simp add: ts(2))
      qed
      from 1 2 3 show ?thesis by blast
    qed
  qed
qed

lemma chunk_size_facts:
  assumes "1 \<le> R" "1 \<le> (W::int)"
  shows "cdiv (R + W - 1) W = (R + W - 1) div W"
    and "1 \<le> (R + W - 1) div W"
    and "R \<le> W * ((R + W - 1) div W)"
    and "W * ((R + W - 1) div W) \<le> R + W - 1"
proof -
  show "cdiv (R + W - 1) W = (R + W - 1) div W"
    using assms by (intro cdiv_nonneg) auto
  have "W div W \<le> (R + W - 1) div W"
    using assms by (intro zdiv_mono1) auto
  then show "1 \<le> (R + W - 1) div W"
    using assms by simp
  show "R \<le> W * ((R + W - 1) div W)"
    using round_up_bounds(1) [of W R] assms by (simp add: mult.commute)
  show "W * ((R + W - 1) div W) \<le> R + W - 1"
    using round_up_bounds(2) [of W R] assms by (simp add: algebra_simps)
qed

lemma launchThreads_launch:
  assumes "launchThreads s e W = Inr cs" "s \<le> e" "1 \<le> W"
  shows "launch s e W ((e - s + 1 + W - 1) div W) 0 = Inr cs"
proof -
  have "cdiv (e - s + 1 + W - 1) W = (e - s + 1 + W - 1) div W"
    using assms(2,3) by (intro chunk_size_facts(1)) auto
  with assms(1) show ?thesis
    by (simp add: launchThreads_def Let_def split: if_splits)
qed

lemma launchThreads_total:
  assumes "1 \<le> s" "s \<le> e" "1 \<le> W" "W \<le> INT_MAX" "e + W \<le> LLONG_MAX"
  shows "\<exists>cs. launchThreads s e W = Inr cs"
proof -
  let ?R = "e - s + 1"
  let ?c = "(?R + W - 1) div W"
  have R: "1 \<le> ?R" using assms(2) by simp
  note cs = chunk_size_facts [OF R assms(3)]
  have 1: "in_ll (e - s)" "in_ll ?R" "in_ll (?R + W)" "in_ll (?R + W - 1)"
    using assms by (auto intro!: nonneg_in_ll)
  have "1 * ?c \<le> W * ?c"
    using cs(2) assms(3) by (intro mult_right_mono) auto
  then have "?c \<le> LLONG_MAX"
    using cs(4) assms(1,2,5) by linarith
  moreover have "0 \<le> ?c"
    using cs(2) by linarith
  ultimately have 2: "in_ll ?c"
    by (intro nonneg_in_ll)
  have "s + W * ?c \<le> LLONG_MAX"
    using cs(4) assms(5) by simp
  then obtain xs where "launch s e W ?c 0 = Inr xs"
    using launch_total [of ?c 0 s W e] cs(2) assms by auto
  then show ?thesis
    using 1 2 assms(3) cs(1) by (simp add: launchThreads_def Let_def)
qed

lemma launchThreads_cover:
  assumes "launchThreads s e W = Inr cs" "s \<le> e" "1 \<le> W"
  shows "concat (map (\<lambda>(a, b). [a..b]) cs) = [s..e]"
    and "\<forall>k<length cs. cs ! k = (s + int k * ((e - s + 1 + W - 1) div W),
            min e (s + int k * ((e - s + 1 + W - 1) div W) + (e - s + 1 + W - 1) div W - 1)) \<and>
            s + int k * ((e - s + 1 + W - 1) div W) \<le> e"
    and "cs \<noteq> []" and "snd (last cs) = e"
proof -
  let ?R = "e - s + 1"
  let ?c = "(?R + W - 1) div W"
  have R: "1 \<le> ?R" using assms(2) by simp
  note c = chunk_size_facts [OF R assms(3)]
  have "e < s + W * ?c"
    using c(3) by simp
  from launch_cover [OF launchThreads_launch [OF assms] c(2) _ this]
  have *: "concat (map (\<lambda>(a, b). [a..b]) cs) = [s + 0 * ?c..e]"
    "\<forall>k<length cs. cs ! k = (s + (0 + int k) * ?c, min e (s + (0 + int k) * ?c + ?c - 1)) \<and>
            s + (0 + int k) * ?c \<le> e"
    "cs \<noteq> [] \<longrightarrow> snd (last cs) = e"
    by simp_all
  show 1: "concat (map (\<lambda>(a, b). [a..b]) cs) = [s..e]"
    using *(1) by simp
  show "\<forall>k<length cs. cs ! k = (s + int k * ?c, min e (s + int k * ?c + ?c - 1)) \<and>
            s + int k * ?c \<le> e"
    using *(2) by simp
  show "cs \<noteq> []"
    using 1 assms(2) by auto
  with *(3) show "snd (last cs) = e" by simp
qed

lemma launchThreads_chunks:
  assumes "launchThreads s e W = Inr cs" "s \<le> e" "1 \<le> W" "(a, b) \<in> set cs"
  shows "s \<le> a \<and> a \<le> b \<and> b \<le> e"
proof -
  let ?c = "(e - s + 1 + W - 1) div W"
  have c: "1 \<le> ?c"
    using assms(2,3) by (intro chunk_size_facts(2)) auto
  from assms(4) obtain k where k: "k < length cs" "cs ! k = (a, b)"
    by (auto simp: in_set_conv_nth)
  with launchThreads_cover(2) [OF assms(1-3)]
  have ab: "a = s + int k * ?c" "b = min e (a + ?c - 1)" "a \<le> e"
    by auto
  have "0 \<le> int k * ?c" using c by simp
  with ab c show ?thesis by auto
qed

lemma joinAll_primes:
  assumes "\<forall>(a, b)\<in>set cs. 1 \<le> a \<and> a \<le> b \<and> b \<le> e" "e + INT_MAX \<le> LLONG_MAX"
    "\<forall>p\<in>set bp. is_prime p \<and> p \<le> INT_MAX"
    "\<forall>p. is_prime p \<and> p * p \<le> e \<longrightarrow> p \<in> set bp"
  shows "joinAll bp cs = Inr (map (\<lambda>(a, b). filter is_prime [a..b]) cs)"
  using assms(1)
proof (induction cs)
  case Nil
  then show ?case by simp
next
  case (Cons x cs)
  obtain a b where x: "x = (a, b)" by (cases x)
  with Cons.prems have "1 \<le> a" "a \<le> b" "b \<le> e" by auto
  then have "sieveWorker a b bp = Inr (filter is_prime [a..b])"
    using assms(2-4) by (intro sieveWorker_primes)
  moreover have "joinAll bp cs = Inr (map (\<lambda>(a, b). filter is_prime [a..b]) cs)"
    using Cons by simp
  ultimately show ?case by (simp add: x)
qed

lemma concat_filter_chunks:
  "concat (map (\<lambda>(a, b). filter P [a..b]) cs) = filter P (concat (map (\<lambda>(a, b). [a..b]) cs))"
  by (induction cs) auto

lemma mset_concat_perm:
  assumes "mset xss = mset yss"
  shows "mset (concat xss) = mset (concat yss)"
proof -
  have "mset (concat zs) = \<Sum>\<^sub># (image_mset mset (mset zs))" for zs :: "'a list list"
    by (induction zs) simp_all
  with assms show ?thesis by simp
qed

lemma sort_cong_mset:
  assumes "mset xs = mset (ys :: int list)"
  shows "sort xs = sort ys"
  by (rule properties_for_sort) (simp_all add: assms)

lemma partitionAndSieve_primes:
  assumes "1 \<le> s" "s \<le> e" "1 \<le> W" "W \<le> INT_MAX" "e + INT_MAX \<le> LLONG_MAX"
    "\<forall>p\<in>set bp. is_prime p \<and> p \<le> INT_MAX"
    "\<forall>p. is_prime p \<and> p * p \<le> e \<longrightarrow> p \<in> set bp"
    "\<forall>xs. mset (sched xs) = mset xs"
  shows "\<exists>merged. partitionAndSieve sched s e W bp = Inr merged \<and>
           mset merged = mset (filter is_prime [s..e])"
proof -
  have "e + W \<le> LLONG_MAX" using assms(4,5) by simp
  from launchThreads_total [OF assms(1-4) this] obtain cs where
    cs: "launchThreads s e W = Inr cs" by blast
  have "\<forall>(a, b)\<in>set cs. 1 \<le> a \<and> a \<le> b \<and> b \<le> e"
    using launchThreads_chunks [OF cs assms(2,3)] assms(1) by fastforce
  then have j: "joinAll bp cs = Inr (map (\<lambda>(a, b). filter is_prime [a..b]) cs)"
    using assms(5-7) by (intro joinAll_primes)
  let ?blocks = "map (\<lambda>(a, b). filter is_prime [a..b]) cs"
  have "concat ?blocks = filter is_prime [s..e]"
    using launchThreads_cover(1) [OF cs assms(2,3)] by (simp add: concat_filter_chunks)
  moreover have "mset (concat (sched ?blocks)) = mset (concat ?blocks)"
    using assms(8) by (intro mset_concat_perm) simp
  ultimately show ?thesis
    using cs j by (simp add: partitionAndSieve_def)
qed

subsection \<open>The claim about the partition\<close>

lemma chunk_size_formula_eq:
  "0 < W \<Longrightarrow> chunk_size_formula s e W = (e - s + 1 + W - 1) div W"
  unfolding chunk_size_formula_def by (rule ceil_div_eq)

text \<open>
  C4, amended. For every range \<open>[start, end]\<close> with \<open>1 \<le> start \<le> end\<close> and every number of
  workers from 1 on, whenever the 64-bit arithmetic of the partition does not overflow,
  the chunks that are dispatched are those with \<open>start + i * chunkSize \<le> end\<close>, chunk \<open>i\<close> is
  \<open>[start + i * chunkSize, min(end, start + i * chunkSize + chunkSize - 1)]\<close> with
  \<open>chunkSize = ceil(rangeSize / workerCount)\<close>, no chunk starts beyond \<open>end\<close>, the last one
  ends at \<open>end\<close>, consecutive chunks are contiguous, and together they are \<open>[start, end]\<close>
  with no gap and no overlap. The arithmetic does not overflow when
  \<open>end + workerCount\<close> is a \<^verbatim>\<open>long long\<close>.
\<close>

theorem launchThreads_partition:
  assumes "1 \<le> start" "start \<le> end" "1 \<le> numThreads" "numThreads \<le> INT_MAX"
  shows "(\<forall>threads. launchThreads start end numThreads = Inr threads \<longrightarrow>
            threads \<noteq> [] \<and>
            concat (map (\<lambda>(chunkStart, chunkEnd). [chunkStart..chunkEnd]) threads) = [start..end] \<and>
            (\<forall>i<length threads.
               threads ! i =
                 (start + int i * chunk_size_formula start end numThreads,
                  min end (start + int i * chunk_size_formula start end numThreads +
                    chunk_size_formula start end numThreads - 1)) \<and>
               fst (threads ! i) \<le> end \<and> fst (threads ! i) \<le> snd (threads ! i)) \<and>
            (\<forall>i. 0 \<le> i \<and> start + i * chunk_size_formula start end numThreads \<le> end \<longrightarrow>
               i < int (length threads)) \<and>
            snd (last threads) = end \<and>
            (\<forall>i. Suc i < length threads \<longrightarrow> fst (threads ! Suc i) = snd (threads ! i) + 1)) \<and>
         (end + numThreads \<le> LLONG_MAX \<longrightarrow>
            (\<exists>threads. launchThreads start end numThreads = Inr threads))"
proof (intro conjI allI impI)
  fix threads assume t: "launchThreads start end numThreads = Inr threads"
  define c where "c = chunk_size_formula start end numThreads"
  have c: "c = (end - start + 1 + numThreads - 1) div numThreads"
    using assms(3) by (simp add: c_def chunk_size_formula_eq)
  have c1: "1 \<le> c"
    unfolding c using assms(2,3) by (intro chunk_size_facts(2)) auto
  note cov = launchThreads_cover [OF t assms(2,3), folded c]
  show ne: "threads \<noteq> []" by (rule cov(3))
  show "concat (map (\<lambda>(chunkStart, chunkEnd). [chunkStart..chunkEnd]) threads) = [start..end]"
    by (rule cov(1))
  show last: "snd (last threads) = end" by (rule cov(4))
  have nth: "threads ! i = (start + int i * c, min end (start + int i * c + c - 1))"
    and le: "start + int i * c \<le> end" if "i < length threads" for i
    using cov(2) that by auto
  show "threads ! i = (start + int i * c, min end (start + int i * c + c - 1))"
    if "i < length threads" for i
    using nth that .
  show "fst (threads ! i) \<le> end" if "i < length threads" for i
    using nth [OF that] le [OF that] by simp
  show "fst (threads ! i) \<le> snd (threads ! i)" if "i < length threads" for i
    using nth [OF that] le [OF that] c1 by simp
  show "fst (threads ! Suc i) = snd (threads ! i) + 1" if "Suc i < length threads" for i
  proof -
    have "start + int (Suc i) * c \<le> end" using le [OF that] .
    then have "start + int i * c + c - 1 < end"
      by (simp add: algebra_simps)
    then show ?thesis
      using nth [OF that] nth [of i] that by (simp add: algebra_simps)
  qed
  show "i < int (length threads)" if "0 \<le> i \<and> start + i * c \<le> end" for i
  proof (rule ccontr)
    assume "\<not> i < int (length threads)"
    then have "int (length threads) \<le> i" by simp
    then have "int (length threads) * c \<le> i * c"
      using c1 by (intro mult_right_mono) auto
    moreover have "0 < length threads" using ne by simp
    then have l: "length threads - 1 < length threads" by simp
    have "last threads = threads ! (length threads - 1)"
      using ne by (rule last_conv_nth)
    with last nth [OF l] have "min end (start + int (length threads - 1) * c + c - 1) = end"
      by simp
    then have "end \<le> start + int (length threads - 1) * c + c - 1"
      by simp
    moreover have "int (length threads - 1) = int (length threads) - 1"
      using ne by (cases threads) auto
    ultimately have "end < start + i * c"
      by (simp add: algebra_simps)
    with that show False by simp
  qed
next
  assume "end + numThreads \<le> LLONG_MAX"
  then show "\<exists>threads. launchThreads start end numThreads = Inr threads"
    using assms by (intro launchThreads_total)
qed

theorem launchThreads_partition_witness:
  "(1::int) \<le> 1 \<and> (1::int) \<le> 100 \<and> (1::int) \<le> 17 \<and> (17::int) \<le> INT_MAX \<and>
   launchThreads 1 100 17 =
     Inr [(1, 6), (7, 12), (13, 18), (19, 24), (25, 30), (31, 36), (37, 42), (43, 48),
          (49, 54), (55, 60), (61, 66), (67, 72), (73, 78), (79, 84), (85, 90), (91, 96),
          (97, 100)] \<and>
   snd (last [(1, 6), (7, 12), (13, 18), (19, 24), (25, 30), (31, 36), (37, 42), (43, 48),
          (49, 54), (55, 60), (61, 66), (67, 72), (73, 78), (79, 84), (85, 90), (91, 96),
          (97, 100::int)]) = (100::int)"
proof -
  have "launchThreads 1 100 17 =
     Inr [(1, 6), (7, 12), (13, 18), (19, 24), (25, 30), (31, 36), (37, 42), (43, 48),
          (49, 54), (55, 60), (61, 66), (67, 72), (73, 78), (79, 84), (85, 90), (91, 96),
          (97, 100)]"
    by code_simp
  with launchThreads_partition [of 1 100 17] show ?thesis
    by (simp add: INT_MAX_def)
qed

text \<open>
  The claim C4 as it is written fails for the range that ends at the largest
  \<^verbatim>\<open>long long\<close>: \<open>rangeSize + numThreads\<close> overflows.
\<close>

theorem launchThreads_overflow: "launchThreads 1 9223372036854775807 1 = Inl Overflow"
  by (simp add: launchThreads_def in_ll_def LLONG_MIN_def LLONG_MAX_def)

subsection \<open>The claim about the union of the chunks\<close>

text \<open>
  C1. For every range \<open>[s, e]\<close> with \<open>1 \<le> s \<le> e\<close> and every number of workers from 1 on,
  when the base primes are primes, held as \<^verbatim>\<open>int\<close>s, and hold every prime up to the square
  root of \<open>e\<close>, the workers that are dispatched return, the union of their outputs is the
  set of the primes of \<open>[s, e]\<close>, no number is in two outputs or twice in one, and the merged
  collection, in whatever order the workers append, has the same elements once each and
  sorts to the ascending list of these primes.
\<close>

theorem partitionAndSieve_all_primes:
  assumes "1 \<le> s" "s \<le> e" "1 \<le> W" "W \<le> INT_MAX"
    and "\<forall>p\<in>set basePrimes. is_prime p \<and> p \<le> INT_MAX"
    and "\<forall>p. is_prime p \<and> p * p \<le> e \<longrightarrow> p \<in> set basePrimes"
    and "\<forall>blocks. mset (sched blocks) = mset blocks"
  shows "\<exists>threads blocks merged.
           launchThreads s e W = Inr threads \<and>
           joinAll basePrimes threads = Inr blocks \<and>
           partitionAndSieve sched s e W basePrimes = Inr merged \<and>
           (\<Union>b\<in>set blocks. set b) = {n. s \<le> n \<and> n \<le> e \<and> is_prime n} \<and>
           distinct (concat blocks) \<and>
           set merged = {n. s \<le> n \<and> n \<le> e \<and> is_prime n} \<and>
           distinct merged \<and>
           sort merged = filter is_prime [s..e]"
proof -
  have bound: "e + INT_MAX \<le> LLONG_MAX"
    using assms(5,6) by (intro base_primes_bound [of basePrimes]) auto
  then have "e + W \<le> LLONG_MAX" using assms(4) by simp
  from launchThreads_total [OF assms(1-4) this] obtain threads where
    t: "launchThreads s e W = Inr threads" by blast
  define blocks where "blocks = map (\<lambda>(a, b). filter is_prime [a..b]) threads"
  have "\<forall>(a, b)\<in>set threads. 1 \<le> a \<and> a \<le> b \<and> b \<le> e"
    using launchThreads_chunks [OF t assms(2,3)] assms(1) by fastforce
  then have j: "joinAll basePrimes threads = Inr blocks"
    unfolding blocks_def using bound assms(5,6) by (intro joinAll_primes)
  have cat: "concat blocks = filter is_prime [s..e]"
    unfolding blocks_def
    using launchThreads_cover(1) [OF t assms(2,3)] by (simp add: concat_filter_chunks)
  define merged where "merged = concat (sched blocks)"
  have m: "partitionAndSieve sched s e W basePrimes = Inr merged"
    using t j by (simp add: partitionAndSieve_def merged_def)
  have ms: "mset merged = mset (filter is_prime [s..e])"
    unfolding merged_def cat [symmetric] using assms(7) by (intro mset_concat_perm) simp
  have set_f: "set (filter is_prime [s..e]) = {n. s \<le> n \<and> n \<le> e \<and> is_prime n}"
    by auto
  have 1: "(\<Union>b\<in>set blocks. set b) = {n. s \<le> n \<and> n \<le> e \<and> is_prime n}"
    using cat set_f by (metis set_concat)
  have 2: "distinct (concat blocks)"
    unfolding cat by simp
  have 3: "set merged = {n. s \<le> n \<and> n \<le> e \<and> is_prime n}"
    using mset_eq_setD [OF ms] set_f by simp
  have 4: "distinct merged"
    using mset_eq_imp_distinct_iff [OF ms] by simp
  have "sorted (filter is_prime [s..e])"
    by (intro sorted_filter [where f = "\<lambda>x. x", simplified]) simp
  then have "sort (filter is_prime [s..e]) = filter is_prime [s..e]"
    by (rule sorted_sort_id)
  with sort_cong_mset [OF ms] have 5: "sort merged = filter is_prime [s..e]"
    by simp
  from t j m 1 2 3 4 5 show ?thesis by blast
qed

lemma primes_upto_root_30:
  "\<forall>p. is_prime p \<and> p * p \<le> 30 \<longrightarrow> p \<in> set [2, 3, 5]"
proof (intro allI impI)
  fix p :: int assume p: "is_prime p \<and> p * p \<le> 30"
  then have p2: "2 \<le> p" using is_prime_ge_2 by blast
  have "p < 6"
  proof (rule ccontr)
    assume "\<not> p < 6"
    then have "6 * 6 \<le> p * p" by (intro mult_mono) auto
    with p show False by simp
  qed
  with p2 have "p = 2 \<or> p = 3 \<or> p = 4 \<or> p = 5" by auto
  with p not_is_prime_4 show "p \<in> set [2, 3, 5]" by auto
qed

theorem partitionAndSieve_all_primes_witness:
  "(1::int) \<le> 1 \<and> (1::int) \<le> 30 \<and> (1::int) \<le> 4 \<and> 4 \<le> INT_MAX \<and>
   is_prime 2 \<and> is_prime 3 \<and> is_prime 5 \<and> 5 \<le> INT_MAX \<and>
   (\<exists>merged. partitionAndSieve rev 1 30 4 [2, 3, 5] = Inr merged \<and>
      sort merged = filter is_prime [1..30] \<and> distinct merged)"
proof -
  have c: "(1::int) \<le> 1" "(1::int) \<le> 30" "(1::int) \<le> 4" "4 \<le> INT_MAX"
    by (simp_all add: INT_MAX_def)
  have i: "5 \<le> INT_MAX" by (simp add: INT_MAX_def)
  have b: "\<forall>p\<in>set [2, 3, 5]. is_prime p \<and> p \<le> INT_MAX"
    using is_prime_2 is_prime_3 is_prime_5 by (simp add: INT_MAX_def)
  have r: "\<forall>blocks::int list list. mset (rev blocks) = mset blocks"
    by simp
  from partitionAndSieve_all_primes [OF c b primes_upto_root_30 r]
  have "\<exists>merged. partitionAndSieve rev 1 30 4 [2, 3, 5] = Inr merged \<and>
      sort merged = filter is_prime [1..30] \<and> distinct merged"
    by blast
  with c i is_prime_2 is_prime_3 is_prime_5 show ?thesis
    by blast
qed

section \<open>The aggregator is correct\<close>

lemma sumLoop_partial: "sumLoop xs s = Inr t \<Longrightarrow> t = s + sum_list xs"
proof (induction xs arbitrary: s)
  case Nil
  then show ?case by simp
next
  case (Cons x xs)
  then have "sumLoop xs (s + x) = Inr t"
    by (simp split: if_splits)
  then have "t = s + x + sum_list xs"
    by (rule Cons.IH)
  then show ?case by simp
qed

lemma sumLoop_total:
  assumes "0 \<le> s" "\<forall>x\<in>set xs. 0 \<le> x" "s + sum_list xs \<le> LLONG_MAX"
  shows "sumLoop xs s = Inr (s + sum_list xs)"
  using assms
proof (induction xs arbitrary: s)
  case Nil
  then show ?case by simp
next
  case (Cons x xs)
  have "0 \<le> sum_list xs"
    using Cons.prems(2) by (intro sum_list_nonneg) auto
  then have "in_ll (s + x)"
    using Cons.prems by (intro nonneg_in_ll) auto
  moreover have "sumLoop xs (s + x) = Inr (s + x + sum_list xs)"
    using Cons.prems by (intro Cons.IH) (auto simp: add.assoc)
  ultimately show ?case by (simp add: add.assoc)
qed

lemma topLoop_spec:
  assumes "0 \<le> i" "i \<le> cnt" "cnt \<le> int (length xs)" "cnt \<le> INT_MAX"
  shows "topLoop xs cnt i acc = Inr (acc @ take (nat (cnt - i)) (drop (nat i) xs))"
  using assms
proof (induction xs cnt i acc rule: topLoop.induct)
  case (1 xs cnt i acc)
  show ?case
  proof (cases "i < cnt")
    case False
    then show ?thesis
      by (subst topLoop.simps) simp
  next
    case True
    have ib: "in_bounds i xs"
      using True "1.prems" by (simp add: in_bounds_def)
    have ii: "in_int (i + 1)"
      using True "1.prems" by (intro nonneg_in_int) auto
    have "topLoop xs cnt (i + 1) (acc @ [xs ! nat i]) =
        Inr ((acc @ [xs ! nat i]) @ take (nat (cnt - (i + 1))) (drop (nat (i + 1)) xs))"
      using "1.IH" True ib ii "1.prems" by simp
    moreover have "nat i < length xs"
      using ib "1.prems"(1) by (simp add: in_bounds_def)
    then have "drop (nat i) xs = xs ! nat i # drop (nat (i + 1)) xs"
      using "1.prems"(1) by (simp add: Cons_nth_drop_Suc nat_add_distrib)
    moreover have "nat (cnt - i) = Suc (nat (cnt - (i + 1)))"
      using True by simp
    ultimately show ?thesis
      using True ib ii by (subst topLoop.simps) simp
  qed
qed

lemma aggregate_value:
  assumes "int (length xs) \<le> INT_MAX" "sumLoop (sort xs) 0 = Inr t"
  shows "aggregate xs = Inr \<lparr>allPrimes = sort xs, primeCount = length xs, primeSum = t,
           topTen = drop (length xs - 10) (sort xs)\<rparr>"
proof -
  let ?n = "int (length xs)"
  have cnt: "to_int (int (length (sort xs))) = ?n"
    using assms(1) by (simp add: to_int_id INT_MIN_def)
  have ii: "in_int (?n - 10)"
    using assms(1) by (simp add: in_int_def INT_MIN_def)
  have "topLoop (sort xs) ?n (max 0 (?n - 10)) [] =
      Inr ([] @ take (nat (?n - max 0 (?n - 10))) (drop (nat (max 0 (?n - 10))) (sort xs)))"
    using assms(1) by (intro topLoop_spec) auto
  moreover have "nat (max 0 (?n - 10)) = length xs - 10"
    by auto
  moreover have "take (nat (?n - max 0 (?n - 10))) (drop (length xs - 10) (sort xs)) =
      drop (length xs - 10) (sort xs)"
    by (intro take_all) auto
  ultimately have "topLoop (sort xs) ?n (max 0 (?n - 10)) [] = Inr (drop (length xs - 10) (sort xs))"
    by simp
  then show ?thesis
    using assms(2) cnt ii by (simp add: aggregate_def Let_def)
qed

lemma sum_list_sort: "sum_list (sort xs) = sum_list (xs :: int list)"
proof -
  have "sum_list (sort xs) = \<Sum>\<^sub># (mset (sort xs))"
    by (simp only: sum_mset_sum_list)
  also have "\<dots> = sum_list xs"
    by (simp add: sum_mset_sum_list)
  finally show ?thesis .
qed

lemma aggregate_partial:
  assumes "aggregate xs = Inr r"
  shows "allPrimes r = sort xs \<and> primeCount r = length xs \<and> primeSum r = sum_list xs \<and>
         (int (length xs) \<le> INT_MAX \<longrightarrow> topTen r = drop (length xs - 10) (sort xs))"
proof -
  from assms obtain t where t: "sumLoop (sort xs) 0 = Inr t"
    by (auto simp: aggregate_def Let_def split: sum.splits)
  have ts: "t = sum_list xs"
    using sumLoop_partial [OF t] by (simp add: sum_list_sort)
  have 1: "allPrimes r = sort xs \<and> primeCount r = length xs \<and> primeSum r = sum_list xs"
    using assms t ts by (auto simp: aggregate_def Let_def split: sum.splits if_splits)
  have 2: "topTen r = drop (length xs - 10) (sort xs)" if "int (length xs) \<le> INT_MAX"
    using aggregate_value [OF that t] assms by simp
  from 1 2 show ?thesis by blast
qed

lemma aggregate_total:
  assumes "\<forall>x\<in>set xs. 0 \<le> x" "sum_list xs \<le> LLONG_MAX" "int (length xs) \<le> INT_MAX"
  shows "aggregate xs = Inr \<lparr>allPrimes = sort xs, primeCount = length xs,
           primeSum = sum_list xs, topTen = drop (length xs - 10) (sort xs)\<rparr>"
proof -
  have "sumLoop (sort xs) 0 = Inr (0 + sum_list (sort xs))"
    using assms(1,2) by (intro sumLoop_total) (auto simp: sum_list_sort)
  then have "sumLoop (sort xs) 0 = Inr (sum_list xs)"
    by (simp add: sum_list_sort)
  from aggregate_value [OF assms(3) this] show ?thesis .
qed

lemma aggregate_cong_sort: "sort xs = sort ys \<Longrightarrow> aggregate xs = aggregate ys"
  by (simp add: aggregate_def)

subsection \<open>The claim about the aggregator\<close>

text \<open>
  C6, amended. Whenever the aggregator returns, the count is the length of the sequence and
  the sum is the exact sum of its elements, held in a 64-bit accumulator; for a sequence of
  at most \<open>2\<^sup>3\<^sup>1 - 1\<close> elements the top ten are the last 10 elements of the sorted sequence,
  all of them when there are fewer. It returns for every sequence of non-negative elements
  whose sum fits 64 bits and whose length fits an \<^verbatim>\<open>int\<close>. On the empty sequence the count
  is 0, the sum is 0 and there is no top element.
\<close>

theorem aggregate_statistics:
  "(\<forall>r. aggregate results = Inr r \<longrightarrow>
      allPrimes r = sort results \<and> primeCount r = length results \<and>
      primeSum r = sum_list results \<and>
      (int (length results) \<le> INT_MAX \<longrightarrow>
         topTen r = drop (length results - 10) (sort results))) \<and>
   ((\<forall>x\<in>set results. 0 \<le> x) \<and> sum_list results \<le> LLONG_MAX \<and>
      int (length results) \<le> INT_MAX \<longrightarrow>
      (\<exists>r. aggregate results = Inr r)) \<and>
   aggregate [] = Inr \<lparr>allPrimes = [], primeCount = 0, primeSum = 0, topTen = []\<rparr>"
proof (intro conjI allI impI)
  fix r assume r: "aggregate results = Inr r"
  from aggregate_partial [OF r]
  show "allPrimes r = sort results" "primeCount r = length results"
    "primeSum r = sum_list results"
    by simp_all
  assume "int (length results) \<le> INT_MAX"
  with aggregate_partial [OF r] show "topTen r = drop (length results - 10) (sort results)"
    by simp
next
  assume "(\<forall>x\<in>set results. 0 \<le> x) \<and> sum_list results \<le> LLONG_MAX \<and>
    int (length results) \<le> INT_MAX"
  then show "\<exists>r. aggregate results = Inr r"
    using aggregate_total [of results] by simp
next
  have "aggregate [] = Inr \<lparr>allPrimes = sort [], primeCount = length ([]::int list),
      primeSum = sum_list [], topTen = drop (length ([]::int list) - 10) (sort [])\<rparr>"
    by (rule aggregate_total) (simp_all add: LLONG_MAX_def INT_MAX_def)
  then show "aggregate [] = Inr \<lparr>allPrimes = [], primeCount = 0, primeSum = 0, topTen = []\<rparr>"
    by simp
qed

theorem aggregate_statistics_witness:
  "aggregate [5000000000, 2, 3] =
     Inr \<lparr>allPrimes = [2, 3, 5000000000], primeCount = 3, primeSum = 5000000005,
          topTen = [2, 3, 5000000000]\<rparr> \<and>
   sort [5000000000, 2, 3 :: int] = [2, 3, 5000000000] \<and>
   sum_list [5000000000, 2, 3 :: int] = 5000000005 \<and>
   int (length [5000000000, 2, 3 :: int]) \<le> INT_MAX"
proof -
  have "\<exists>r. aggregate [5000000000, 2, 3] = Inr r"
    using aggregate_statistics [of "[5000000000, 2, 3]"]
    by (simp add: LLONG_MAX_def INT_MAX_def)
  then obtain r where r: "aggregate [5000000000, 2, 3] = Inr r" ..
  with aggregate_statistics [of "[5000000000, 2, 3]"]
  have "allPrimes r = [2, 3, 5000000000]" "primeCount r = 3" "primeSum r = 5000000005"
    "topTen r = [2, 3, 5000000000]"
    by (simp_all add: INT_MAX_def)
  then have "r = \<lparr>allPrimes = [2, 3, 5000000000], primeCount = 3, primeSum = 5000000005,
      topTen = [2, 3, 5000000000]\<rparr>"
    by simp
  with r show ?thesis
    by (simp add: INT_MAX_def)
qed

text \<open>
  The claim C6 as it is written fails on two sequences. The sum of the first leaves the
  64-bit accumulator. The second has \<open>2\<^sup>3\<^sup>1 + 11\<close> elements: \<^verbatim>\<open>int count\<close> keeps the low 32
  bits of the size, a negative number, and the loop that fills the top ten does not run.
\<close>

lemma sort_replicate: "sort (replicate n (x::int)) = replicate n x"
  by (intro sorted_sort_id) (simp add: sorted_replicate)

theorem aggregate_overflow:
  "aggregate [9223372036854775807, 1] = Inl Overflow \<and>
   aggregate (replicate 2147483659 2) =
     Inr \<lparr>allPrimes = replicate 2147483659 2, primeCount = 2147483659,
          primeSum = 4294967318, topTen = []\<rparr>"
proof
  show "aggregate [9223372036854775807, 1] = Inl Overflow"
    by (simp add: aggregate_def in_ll_def LLONG_MAX_def LLONG_MIN_def)
next
  let ?xs = "replicate 2147483659 (2::int)"
  have "sumLoop ?xs 0 = Inr (0 + sum_list ?xs)"
    by (rule sumLoop_total) (simp_all add: sum_list_replicate LLONG_MAX_def)
  then have s: "sumLoop ?xs 0 = Inr 4294967318"
    by (simp add: sum_list_replicate)
  have c: "to_int (int (length ?xs)) = - 2147483637"
    using to_int_wrap [of 2147483659] by (simp add: INT_MAX_def)
  have t: "topLoop ?xs (- 2147483637) 0 [] = Inr []"
    by (subst topLoop.simps) simp
  show "aggregate ?xs = Inr \<lparr>allPrimes = ?xs, primeCount = 2147483659,
          primeSum = 4294967318, topTen = []\<rparr>"
    unfolding aggregate_def sort_replicate Let_def s c
    by (simp add: t in_int_def INT_MIN_def INT_MAX_def)
qed

section \<open>The pipeline is deterministic\<close>

lemma simpleSieve_Inr:
  assumes "simpleSieve L = Inr bp"
  shows "1 \<le> L" and "L < 2147395600" and "bp = filter is_prime [2..L]"
proof -
  from assms have "in_bounds 1 (replicate (nat (L + 1)) True)"
    by (simp add: simpleSieve_def Let_def split: if_splits)
  then show 1: "1 \<le> L"
    by (simp add: in_bounds_def split: if_splits)
  show 2: "L < 2147395600"
  proof (rule ccontr)
    assume "\<not> L < 2147395600"
    then have "\<exists>e. simpleSieve L = Inl e"
      by (intro simpleSieve_overflow) simp
    with assms show False by simp
  qed
  from simpleSieve_correct [OF 1 2] assms show "bp = filter is_prime [2..L]"
    by simp
qed

lemma sum_list_le_length_times:
  assumes "\<forall>x\<in>set xs. x \<le> (B::int)"
  shows "sum_list xs \<le> int (length xs) * B"
  using assms by (induction xs) (auto simp: algebra_simps)

lemma aggregate_primes_small:
  assumes "1 \<le> s" "e \<le> INT_MAX"
  shows "aggregate (filter is_prime [s..e]) =
           Inr \<lparr>allPrimes = filter is_prime [s..e], primeCount = length (filter is_prime [s..e]),
                primeSum = sum_list (filter is_prime [s..e]),
                topTen = drop (length (filter is_prime [s..e]) - 10) (filter is_prime [s..e])\<rparr>"
proof -
  let ?ps = "filter is_prime [s..e]"
  have len: "int (length ?ps) \<le> INT_MAX"
  proof (cases "s \<le> e")
    case True
    have "length ?ps \<le> length [s..e]" by (rule length_filter_le)
    then have "int (length ?ps) \<le> e - s + 1" using True by simp
    with assms show ?thesis by simp
  next
    case False
    then show ?thesis by (simp add: INT_MAX_def)
  qed
  have "\<forall>x\<in>set ?ps. x \<le> INT_MAX"
    using assms(2) by auto
  then have "sum_list ?ps \<le> int (length ?ps) * INT_MAX"
    by (rule sum_list_le_length_times)
  also have "\<dots> \<le> INT_MAX * INT_MAX"
    using len by (intro mult_right_mono) (auto simp: INT_MAX_def)
  also have "\<dots> \<le> LLONG_MAX"
    by (simp add: INT_MAX_def LLONG_MAX_def)
  finally have sum: "sum_list ?ps \<le> LLONG_MAX" .
  have nonneg: "\<forall>x\<in>set ?ps. 0 \<le> x"
    using assms(1) by auto
  have "sort ?ps = ?ps"
    by (intro sorted_sort_id sorted_filter [where f = "\<lambda>x. x", simplified]) simp
  with aggregate_total [OF nonneg sum len] show ?thesis
    by simp
qed

text \<open>
  What \<open>main_run\<close> computes, for a schedule that permutes the blocks and a square root
  that is the integer square root of \<open>end\<close>: when the base sieve returns, the statistics of
  the primes of the range, whatever the schedule and the number of threads.
\<close>

lemma main_run_value:
  assumes "\<forall>blocks. mset (sched blocks) = mset blocks"
    "1 \<le> s" "s \<le> e" "e \<le> LLONG_MAX" "1 \<le> W" "W \<le> INT_MAX"
    "0 \<le> sq e" "sq e * sq e \<le> e" "e < (sq e + 1) * (sq e + 1)"
  shows "main_run sq sched s e W =
           (case simpleSieve (to_int (sq e)) of
              Inl err \<Rightarrow> Inl err
            | Inr bp \<Rightarrow> aggregate (filter is_prime [s..e]))"
proof (cases "simpleSieve (to_int (sq e))")
  case (Inl err)
  then show ?thesis by (simp add: main_run_def)
next
  case (Inr bp)
  note L = simpleSieve_Inr [OF Inr]
  have lt: "sq e < 4294967296"
  proof (rule ccontr)
    assume "\<not> sq e < 4294967296"
    then have "4294967296 * 4294967296 \<le> sq e * sq e"
      by (intro mult_mono) auto
    with assms(4,8) show False by (simp add: LLONG_MAX_def)
  qed
  have eq: "to_int (sq e) = sq e"
  proof (cases "sq e \<le> INT_MAX")
    case True
    with assms(7) show ?thesis by (intro to_int_id) (auto simp: INT_MIN_def)
  next
    case False
    then have "to_int (sq e) = sq e - 4294967296"
      using lt by (intro to_int_wrap) auto
    with L(1) lt show ?thesis by simp
  qed
  have sq: "1 \<le> sq e" "sq e < 2147395600" and bp: "bp = filter is_prime [2..sq e]"
    using L by (simp_all add: eq)
  have "(sq e + 1) * (sq e + 1) \<le> 2147395600 * 2147395600"
    using sq by (intro mult_mono) auto
  with assms(9) have e: "e + INT_MAX \<le> LLONG_MAX"
    by (simp add: INT_MAX_def LLONG_MAX_def)
  have 1: "\<forall>p\<in>set bp. is_prime p \<and> p \<le> INT_MAX"
    using sq(2) by (auto simp: bp INT_MAX_def)
  have 2: "\<forall>p. is_prime p \<and> p * p \<le> e \<longrightarrow> p \<in> set bp"
  proof (intro allI impI)
    fix p assume p: "is_prime p \<and> p * p \<le> e"
    then have "p * p < (sq e + 1) * (sq e + 1)"
      using assms(9) by simp
    moreover have "0 \<le> sq e + 1"
      using assms(7) by simp
    ultimately have "p < sq e + 1"
      by (rule square_less_imp_less)
    with p is_prime_ge_2 [of p] show "p \<in> set bp"
      by (simp add: bp)
  qed
  from partitionAndSieve_primes [OF assms(2,3,5,6) e 1 2 assms(1)]
  obtain merged where m: "partitionAndSieve sched s e W bp = Inr merged"
    "mset merged = mset (filter is_prime [s..e])"
    by blast
  have "aggregate merged = aggregate (filter is_prime [s..e])"
    using m(2) by (intro aggregate_cong_sort sort_cong_mset)
  with Inr m(1) show ?thesis
    by (simp add: main_run_def)
qed

lemma main_run_small:
  assumes "\<forall>blocks. mset (sched blocks) = mset blocks"
    "1 \<le> s" "s \<le> e" "e \<le> INT_MAX" "1 \<le> W" "W \<le> INT_MAX"
    "0 \<le> sq e" "sq e * sq e \<le> e" "e < (sq e + 1) * (sq e + 1)"
  shows "main_run sq sched s e W =
           Inr \<lparr>allPrimes = filter is_prime [s..e], primeCount = length (filter is_prime [s..e]),
                primeSum = sum_list (filter is_prime [s..e]),
                topTen = drop (length (filter is_prime [s..e]) - 10) (filter is_prime [s..e])\<rparr>"
proof -
  have "sq e \<le> sq e * sq e" by (rule self_le_square)
  with assms(4,8) have le: "sq e \<le> INT_MAX" by simp
  have "sq e \<noteq> 0"
    using assms(2,3,9) by auto
  with assms(7) have ge: "1 \<le> sq e" by simp
  have "sq e < 46341"
  proof (rule ccontr)
    assume "\<not> sq e < 46341"
    then have "46341 * 46341 \<le> sq e * sq e"
      by (intro mult_mono) auto
    with assms(4,8) show False by (simp add: INT_MAX_def)
  qed
  then have "simpleSieve (sq e) = Inr (filter is_prime [2..sq e])"
    using ge by (intro simpleSieve_correct) auto
  moreover have "to_int (sq e) = sq e"
    using le assms(7) by (intro to_int_id) (auto simp: INT_MIN_def)
  moreover have "e \<le> LLONG_MAX"
    using assms(4) by (simp add: INT_MAX_def LLONG_MAX_def)
  moreover note main_run_value [of sched s e W sq]
  ultimately have "main_run sq sched s e W = aggregate (filter is_prime [s..e])"
    using assms by simp
  then show ?thesis
    using aggregate_primes_small [OF assms(2,4)] by simp
qed

text \<open>
  C5. For a range \<open>[start, end]\<close> with \<open>1 \<le> start \<le> end\<close>, two runs of the pipeline give the
  same result, whatever the order in which the workers append their blocks and whatever
  the two numbers of workers from 1 on: the same sorted list of primes, count, sum and top
  ten. Up to the largest \<^verbatim>\<open>int\<close> as \<open>end\<close> the run returns them: the primes of the range in
  ascending order, their number, their sum and the last ten. The square root that \<^verbatim>\<open>main\<close>
  takes in double precision is the integer square root of \<open>end\<close>.
\<close>

theorem main_run_deterministic:
  assumes "\<forall>blocks. mset (sched1 blocks) = mset blocks"
    and "\<forall>blocks. mset (sched2 blocks) = mset blocks"
    and "1 \<le> start" "start \<le> end" "end \<le> LLONG_MAX"
    and "1 \<le> W1" "W1 \<le> INT_MAX" "1 \<le> W2" "W2 \<le> INT_MAX"
    and "0 \<le> sqrt_ll end" "sqrt_ll end * sqrt_ll end \<le> end"
      "end < (sqrt_ll end + 1) * (sqrt_ll end + 1)"
  shows "main_run sqrt_ll sched1 start end W1 = main_run sqrt_ll sched2 start end W2 \<and>
         (end \<le> INT_MAX \<longrightarrow>
            main_run sqrt_ll sched1 start end W1 =
              Inr \<lparr>allPrimes = filter is_prime [start..end],
                   primeCount = length (filter is_prime [start..end]),
                   primeSum = sum_list (filter is_prime [start..end]),
                   topTen = drop (length (filter is_prime [start..end]) - 10)
                     (filter is_prime [start..end])\<rparr>)"
proof
  have "main_run sqrt_ll sched1 start end W1 =
      (case simpleSieve (to_int (sqrt_ll end)) of
         Inl err \<Rightarrow> Inl err
       | Inr bp \<Rightarrow> aggregate (filter is_prime [start..end]))"
    using assms by (intro main_run_value)
  moreover have "main_run sqrt_ll sched2 start end W2 =
      (case simpleSieve (to_int (sqrt_ll end)) of
         Inl err \<Rightarrow> Inl err
       | Inr bp \<Rightarrow> aggregate (filter is_prime [start..end]))"
    using assms by (intro main_run_value)
  ultimately show "main_run sqrt_ll sched1 start end W1 = main_run sqrt_ll sched2 start end W2"
    by simp
next
  show "end \<le> INT_MAX \<longrightarrow>
            main_run sqrt_ll sched1 start end W1 =
              Inr \<lparr>allPrimes = filter is_prime [start..end],
                   primeCount = length (filter is_prime [start..end]),
                   primeSum = sum_list (filter is_prime [start..end]),
                   topTen = drop (length (filter is_prime [start..end]) - 10)
                     (filter is_prime [start..end])\<rparr>"
    using assms by (intro impI main_run_small)
qed

theorem main_run_deterministic_witness:
  "(1::int) \<le> 1 \<and> (1::int) \<le> 100 \<and> (100::int) \<le> LLONG_MAX \<and> (1::int) \<le> 4 \<and>
   (4::int) \<le> INT_MAX \<and> (1::int) \<le> 17 \<and> (17::int) \<le> INT_MAX \<and>
   (0::int) \<le> 10 \<and> (10::int) * 10 \<le> 100 \<and> (100::int) < (10 + 1) * (10 + 1) \<and>
   main_run (\<lambda>n. 10) (\<lambda>blocks. blocks) 1 100 4 = main_run (\<lambda>n. 10) rev 1 100 17"
proof -
  have "main_run (\<lambda>n. 10) (\<lambda>blocks. blocks) 1 100 4 = main_run (\<lambda>n. 10) rev 1 100 17"
    by (rule main_run_deterministic [of "\<lambda>blocks. blocks" rev 1 100 4 17 "\<lambda>n. 10",
          THEN conjunct1])
       (simp_all add: INT_MAX_def LLONG_MAX_def)
  then show ?thesis
    by (simp add: INT_MAX_def LLONG_MAX_def)
qed

text \<open>
  C9. On the range from 1 to 100 with 4 workers the pipeline gives the count 25, the sum
  1060 and the top ten 53, 59, 61, 67, 71, 73, 79, 83, 89, 97; on the range from 1 to 30 it
  gives the primes 2, 3, 5, 7, 11, 13, 17, 19, 23, 29, the count 10 and the sum 129, for
  every number of workers. The square roots that \<^verbatim>\<open>main\<close> takes are 10 and 5.
\<close>

lemma primes_upto_100:
  "filter is_prime [1..100] =
     [2, 3, 5, 7, 11, 13, 17, 19, 23, 29, 31, 37, 41, 43, 47, 53, 59, 61, 67, 71, 73, 79, 83,
      89, 97]"
  by code_simp

lemma primes_upto_30: "filter is_prime [1..30] = [2, 3, 5, 7, 11, 13, 17, 19, 23, 29]"
  by code_simp

theorem main_run_examples:
  assumes "\<forall>blocks. mset (sched blocks) = mset blocks"
    and "sqrt_ll 100 = 10" "sqrt_ll 30 = 5" "1 \<le> W" "W \<le> INT_MAX"
  shows "main_run sqrt_ll sched 1 100 4 =
           Inr \<lparr>allPrimes = [2, 3, 5, 7, 11, 13, 17, 19, 23, 29, 31, 37, 41, 43, 47, 53, 59,
                  61, 67, 71, 73, 79, 83, 89, 97],
                primeCount = 25, primeSum = 1060,
                topTen = [53, 59, 61, 67, 71, 73, 79, 83, 89, 97]\<rparr> \<and>
         main_run sqrt_ll sched 1 30 W =
           Inr \<lparr>allPrimes = [2, 3, 5, 7, 11, 13, 17, 19, 23, 29], primeCount = 10,
                primeSum = 129, topTen = [2, 3, 5, 7, 11, 13, 17, 19, 23, 29]\<rparr>"
proof
  have "main_run sqrt_ll sched 1 100 4 =
      Inr \<lparr>allPrimes = filter is_prime [1..100], primeCount = length (filter is_prime [1..100]),
           primeSum = sum_list (filter is_prime [1..100]),
           topTen = drop (length (filter is_prime [1..100]) - 10) (filter is_prime [1..100])\<rparr>"
    using assms(1,2) by (intro main_run_small) (simp_all add: INT_MAX_def)
  then show "main_run sqrt_ll sched 1 100 4 =
           Inr \<lparr>allPrimes = [2, 3, 5, 7, 11, 13, 17, 19, 23, 29, 31, 37, 41, 43, 47, 53, 59,
                  61, 67, 71, 73, 79, 83, 89, 97],
                primeCount = 25, primeSum = 1060,
                topTen = [53, 59, 61, 67, 71, 73, 79, 83, 89, 97]\<rparr>"
    unfolding primes_upto_100 by simp
next
  have "main_run sqrt_ll sched 1 30 W =
      Inr \<lparr>allPrimes = filter is_prime [1..30], primeCount = length (filter is_prime [1..30]),
           primeSum = sum_list (filter is_prime [1..30]),
           topTen = drop (length (filter is_prime [1..30]) - 10) (filter is_prime [1..30])\<rparr>"
    using assms(1,3,4,5) by (intro main_run_small) (simp_all add: INT_MAX_def)
  then show "main_run sqrt_ll sched 1 30 W =
           Inr \<lparr>allPrimes = [2, 3, 5, 7, 11, 13, 17, 19, 23, 29], primeCount = 10,
                primeSum = 129, topTen = [2, 3, 5, 7, 11, 13, 17, 19, 23, 29]\<rparr>"
    unfolding primes_upto_30 by simp
qed

theorem main_run_examples_witness:
  "(1::int) \<le> 8 \<and> (8::int) \<le> INT_MAX \<and>
   main_run (\<lambda>n. if n = 100 then 10 else 5) rev 1 100 4 =
     Inr \<lparr>allPrimes = [2, 3, 5, 7, 11, 13, 17, 19, 23, 29, 31, 37, 41, 43, 47, 53, 59,
            61, 67, 71, 73, 79, 83, 89, 97],
          primeCount = 25, primeSum = 1060,
          topTen = [53, 59, 61, 67, 71, 73, 79, 83, 89, 97]\<rparr> \<and>
   main_run (\<lambda>n. if n = 100 then 10 else 5) rev 1 30 8 =
     Inr \<lparr>allPrimes = [2, 3, 5, 7, 11, 13, 17, 19, 23, 29], primeCount = 10,
          primeSum = 129, topTen = [2, 3, 5, 7, 11, 13, 17, 19, 23, 29]\<rparr>"
  using main_run_examples [of rev "\<lambda>n. if n = 100 then 10 else 5" 8]
  by (simp add: INT_MAX_def)

end
